theory Spec2Isabelle
  imports Complex_Main
begin

section \<open>Binary32 floating-point numbers\<close>

text \<open>
  The tensors of the model hold 32-bit floating-point numbers (the projection output
  is cast to \<open>float\<close>). A number is NaN, an infinity or a finite real; finite results
  of the operations are rounded to the nearest number with a 24-bit significand and
  an exponent of the unit in the last place between -149 and 104, ties to the even
  significand, and become infinite from \<open>2\<^sup>1\<^sup>2\<^sup>8\<close> on. There is one NaN and one
  zero: payloads and the sign of zero are not modelled. The exponential is taken as
  correctly rounded.
\<close>

datatype f32 = NaN | PInf | NInf | Fin real

definition ulp_exp :: "real \<Rightarrow> int" where
  "ulp_exp x = max (\<lfloor>log 2 \<bar>x\<bar>\<rfloor> - 23) (- 149)"

definition rne :: "real \<Rightarrow> int" where
  "rne q =
     (let f = \<lfloor>q\<rfloor>
      in if q - of_int f < 1 / 2 then f
         else if 1 / 2 < q - of_int f then f + 1
         else if even f then f else f + 1)"

definition round32 :: "real \<Rightarrow> f32" where
  "round32 x =
     (if x = 0 then Fin 0
      else
        (let e = ulp_exp x;
             y = of_int (rne (x / 2 powi e)) * 2 powi e
         in if 2 ^ 128 \<le> \<bar>y\<bar> then (if 0 < x then PInf else NInf) else Fin y))"

text \<open>
  The value \<open>round32\<close> compares with \<open>2\<^sup>1\<^sup>2\<^sup>8\<close>: the nearest multiple of the unit in the last
  place.
\<close>

definition rnd :: "real \<Rightarrow> real" where
  "rnd x = of_int (rne (x / 2 powi ulp_exp x)) * 2 powi ulp_exp x"

fun fneg :: "f32 \<Rightarrow> f32" where
  "fneg NaN = NaN"
| "fneg PInf = NInf"
| "fneg NInf = PInf"
| "fneg (Fin a) = Fin (- a)"

fun fadd :: "f32 \<Rightarrow> f32 \<Rightarrow> f32" where
  "fadd NaN y = NaN"
| "fadd x NaN = NaN"
| "fadd PInf NInf = NaN"
| "fadd NInf PInf = NaN"
| "fadd PInf y = PInf"
| "fadd x PInf = PInf"
| "fadd NInf y = NInf"
| "fadd x NInf = NInf"
| "fadd (Fin a) (Fin b) = round32 (a + b)"

definition fsub :: "f32 \<Rightarrow> f32 \<Rightarrow> f32" where
  "fsub x y = fadd x (fneg y)"

definition inf_of_sign :: "bool \<Rightarrow> f32" where
  "inf_of_sign positive = (if positive then PInf else NInf)"

fun fmul :: "f32 \<Rightarrow> f32 \<Rightarrow> f32" where
  "fmul NaN y = NaN"
| "fmul x NaN = NaN"
| "fmul (Fin a) (Fin b) = round32 (a * b)"
| "fmul (Fin a) PInf = (if a = 0 then NaN else inf_of_sign (0 < a))"
| "fmul (Fin a) NInf = (if a = 0 then NaN else inf_of_sign (a < 0))"
| "fmul PInf (Fin b) = (if b = 0 then NaN else inf_of_sign (0 < b))"
| "fmul NInf (Fin b) = (if b = 0 then NaN else inf_of_sign (b < 0))"
| "fmul PInf PInf = PInf"
| "fmul NInf NInf = PInf"
| "fmul PInf NInf = NInf"
| "fmul NInf PInf = NInf"

fun fdiv :: "f32 \<Rightarrow> f32 \<Rightarrow> f32" where
  "fdiv NaN y = NaN"
| "fdiv x NaN = NaN"
| "fdiv (Fin a) (Fin b) =
     (if b = 0 then (if a = 0 then NaN else inf_of_sign (0 < a)) else round32 (a / b))"
| "fdiv (Fin a) PInf = Fin 0"
| "fdiv (Fin a) NInf = Fin 0"
| "fdiv PInf (Fin b) = inf_of_sign (0 \<le> b)"
| "fdiv NInf (Fin b) = inf_of_sign (b < 0)"
| "fdiv x y = NaN"

fun fexp :: "f32 \<Rightarrow> f32" where
  "fexp NaN = NaN"
| "fexp PInf = PInf"
| "fexp NInf = Fin 0"
| "fexp (Fin a) = round32 (exp a)"

fun fle :: "f32 \<Rightarrow> f32 \<Rightarrow> bool" where
  "fle NaN y = False"
| "fle x NaN = False"
| "fle NInf y = True"
| "fle x PInf = True"
| "fle PInf y = False"
| "fle x NInf = False"
| "fle (Fin a) (Fin b) = (a \<le> b)"

definition flt :: "f32 \<Rightarrow> f32 \<Rightarrow> bool" where
  "flt x y = (fle x y \<and> x \<noteq> y)"

section \<open>Tensors and Python values\<close>

datatype error = IndexError | ValueError | RuntimeError | TypeError

record 'a tensor =
  shape :: "nat list"
  data :: "'a list"
  requires_grad :: bool

definition numel :: "nat list \<Rightarrow> nat" where
  "numel sh = prod_list sh"

definition wf_tensor :: "'a tensor \<Rightarrow> bool" where
  "wf_tensor t = (length (data t) = numel (shape t))"

definition detach :: "'a tensor \<Rightarrow> 'a tensor" where
  "detach t = t\<lparr>requires_grad := False\<rparr>"

text \<open>
  The cache is a tensor or a sequence (list or tuple) of caches. \<open>repackage_hidden\<close>
  detaches a tensor and otherwise rebuilds the sequence as a tuple of the repackaged
  elements.
\<close>

datatype kind = PyList | PyTuple

datatype pyobj = Tensor "f32 tensor" | Seq kind "pyobj list"

fun repackage_hidden :: "pyobj \<Rightarrow> pyobj" where
  "repackage_hidden (Tensor h) = Tensor (detach h)"
| "repackage_hidden (Seq k h) = Seq PyTuple (map repackage_hidden h)"

datatype skeleton = Leaf "nat list" "f32 list" | Node "skeleton list"

fun skeleton_of :: "pyobj \<Rightarrow> skeleton" where
  "skeleton_of (Tensor t) = Leaf (shape t) (data t)"
| "skeleton_of (Seq k vs) = Node (map skeleton_of vs)"

fun tensors :: "pyobj \<Rightarrow> f32 tensor list" where
  "tensors (Tensor t) = [t]"
| "tensors (Seq k vs) = concat (map tensors vs)"

section \<open>The parameter store and the random number generator\<close>

text \<open>
  Parameters are cells of a store, and a module holds the address of its parameter,
  so that two modules holding one address share one storage. The random number
  generator is a fixed stream of draws and a cursor, the number of draws consumed so
  far; an operation that draws takes the cursor and returns it advanced.
\<close>

type_synonym addr = nat

type_synonym gen = "nat \<Rightarrow> real"

record store =
  cells :: "addr \<Rightarrow> f32 tensor option"
  next_addr :: addr

definition new_parameter :: "f32 tensor \<Rightarrow> store \<Rightarrow> addr \<times> store" where
  "new_parameter t st =
     (next_addr st,
      st\<lparr>cells := (cells st)(next_addr st \<mapsto> t\<lparr>requires_grad := True\<rparr>),
         next_addr := Suc (next_addr st)\<rparr>)"

definition param_write :: "addr \<Rightarrow> f32 tensor \<Rightarrow> store \<Rightarrow> store" where
  "param_write a t st = st\<lparr>cells := (cells st)(a \<mapsto> t)\<rparr>"

definition random_tensor :: "gen \<Rightarrow> nat list \<Rightarrow> nat \<Rightarrow> f32 tensor \<times> nat" where
  "random_tensor g sh k =
     (\<lparr>shape = sh, data = map (\<lambda>i. round32 (g (k + i))) [0..<numel sh], requires_grad = False\<rparr>,
      k + numel sh)"

definition normal_inplace :: "gen \<Rightarrow> real \<Rightarrow> real \<Rightarrow> addr \<Rightarrow> store \<times> nat \<Rightarrow> store \<times> nat" where
  "normal_inplace g mean std a sk =
     (case sk of
        (st, k) \<Rightarrow>
          (case cells st a of
             None \<Rightarrow> (st, k)
           | Some t \<Rightarrow>
               (st\<lparr>cells := (cells st)(a \<mapsto>
                     t\<lparr>data := map (\<lambda>i. round32 (mean + std * g (k + i))) [0..<length (data t)]\<rparr>)\<rparr>,
                k + length (data t))))"

definition fill_inplace :: "real \<Rightarrow> addr \<Rightarrow> store \<times> nat \<Rightarrow> store \<times> nat" where
  "fill_inplace v a sk =
     (case sk of
        (st, k) \<Rightarrow>
          (case cells st a of
             None \<Rightarrow> (st, k)
           | Some t \<Rightarrow>
               (st\<lparr>cells := (cells st)(a \<mapsto> t\<lparr>data := map (\<lambda>_. round32 v) (data t)\<rparr>)\<rparr>, k)))"

section \<open>Library modules\<close>

record Embedding =
  num_embeddings :: nat
  embedding_dim :: nat
  emb_weight :: addr

record Linear =
  in_features :: nat
  out_features :: nat
  lin_weight :: addr
  lin_bias :: "addr option"

record LayerNorm =
  ln_weight :: addr
  ln_bias :: addr

record Dropout =
  drop_p :: real

datatype nn_module =
  MEmbedding Embedding | MLinear Linear | MLayerNorm LayerNorm | MDropout Dropout | MOther

definition nn_Embedding :: "gen \<Rightarrow> nat \<Rightarrow> nat \<Rightarrow> store \<Rightarrow> nat \<Rightarrow> Embedding \<times> store \<times> nat" where
  "nn_Embedding g v d st k =
     (let (t, k1) = random_tensor g [v, d] k;
          (a, st1) = new_parameter t st
      in (\<lparr>num_embeddings = v, embedding_dim = d, emb_weight = a\<rparr>, st1, k1))"

definition nn_Linear :: "gen \<Rightarrow> nat \<Rightarrow> nat \<Rightarrow> bool \<Rightarrow> store \<Rightarrow> nat \<Rightarrow> Linear \<times> store \<times> nat" where
  "nn_Linear g n_in n_out with_bias st k =
     (let (t, k1) = random_tensor g [n_out, n_in] k;
          (a, st1) = new_parameter t st
      in if with_bias
         then (let (tb, k2) = random_tensor g [n_out] k1;
                   (b, st2) = new_parameter tb st1
               in (\<lparr>in_features = n_in, out_features = n_out, lin_weight = a, lin_bias = Some b\<rparr>,
                   st2, k2))
         else (\<lparr>in_features = n_in, out_features = n_out, lin_weight = a, lin_bias = None\<rparr>,
               st1, k1))"

definition nn_Dropout :: "real \<Rightarrow> error + Dropout" where
  "nn_Dropout q = (if q < 0 \<or> 1 < q then Inl ValueError else Inr \<lparr>drop_p = q\<rparr>)"

text \<open>Row \<open>i\<close> of a row-major matrix with \<open>d\<close> columns, and its first \<open>n\<close> rows.\<close>

definition row :: "nat \<Rightarrow> 'a list \<Rightarrow> nat \<Rightarrow> 'a list" where
  "row d xs i = take d (drop (i * d) xs)"

definition rows :: "nat \<Rightarrow> nat \<Rightarrow> 'a list \<Rightarrow> 'a list list" where
  "rows n d xs = map (row d xs) [0..<n]"

text \<open>
  The inner product in binary32: every product and every partial sum is rounded, the
  sum running from the left. (The order of the summation and the use of fused
  multiply-add are the numeric library's; they matter for rounding only.)
\<close>

definition fdot :: "f32 list \<Rightarrow> f32 list \<Rightarrow> f32" where
  "fdot xs ys = foldl fadd (Fin 0) (map2 fmul xs ys)"

definition Embedding_call :: "store \<Rightarrow> Embedding \<Rightarrow> int tensor \<Rightarrow> error + f32 tensor" where
  "Embedding_call st e x =
     (case cells st (emb_weight e) of
        None \<Rightarrow> Inl RuntimeError
      | Some w \<Rightarrow>
          (case shape w of
             [v, d] \<Rightarrow>
               if list_ex (\<lambda>i. i < 0 \<or> int v \<le> i) (data x) then Inl IndexError
               else Inr \<lparr>shape = shape x @ [d],
                         data = concat (map (\<lambda>i. row d (data w) (nat i)) (data x)),
                         requires_grad = requires_grad w\<rparr>
           | _ \<Rightarrow> Inl RuntimeError))"

definition F_linear :: "f32 tensor \<Rightarrow> f32 tensor \<Rightarrow> f32 tensor option \<Rightarrow> error + f32 tensor" where
  "F_linear inp w b =
     (case shape w of
        [v, d] \<Rightarrow>
          if shape inp = [] \<or> last (shape inp) \<noteq> d then Inl RuntimeError
          else
            (let lead = butlast (shape inp);
                 xs = rows (numel lead) d (data inp)
             in case b of
                  None \<Rightarrow>
                    Inr \<lparr>shape = lead @ [v],
                         data = concat (map (\<lambda>r. map (\<lambda>j. fdot r (row d (data w) j)) [0..<v]) xs),
                         requires_grad = (requires_grad inp \<or> requires_grad w)\<rparr>
                | Some bt \<Rightarrow>
                    if shape bt \<noteq> [v] then Inl RuntimeError
                    else
                      Inr \<lparr>shape = lead @ [v],
                           data = concat (map (\<lambda>r. map (\<lambda>j. fadd (fdot r (row d (data w) j)) (data bt ! j))
                                                    [0..<v]) xs),
                           requires_grad = (requires_grad inp \<or> requires_grad w \<or> requires_grad bt)\<rparr>)
      | _ \<Rightarrow> Inl RuntimeError)"

definition Linear_call :: "store \<Rightarrow> Linear \<Rightarrow> f32 tensor \<Rightarrow> error + f32 tensor" where
  "Linear_call st l inp =
     (case cells st (lin_weight l) of
        None \<Rightarrow> Inl RuntimeError
      | Some w \<Rightarrow>
          (case lin_bias l of
             None \<Rightarrow> F_linear inp w None
           | Some ba \<Rightarrow>
               (case cells st ba of
                  None \<Rightarrow> Inl RuntimeError
                | Some bt \<Rightarrow> F_linear inp w (Some bt))))"

text \<open>
  Dropout in training mode draws one number per element, zeroes the element when the
  draw falls below the probability and rescales the others by \<open>1 / (1 - p)\<close>; in
  evaluation mode it is the identity and draws nothing.
\<close>

definition Dropout_call :: "Dropout \<Rightarrow> bool \<Rightarrow> gen \<Rightarrow> f32 tensor \<Rightarrow> nat \<Rightarrow> f32 tensor \<times> nat" where
  "Dropout_call dr tr g t k =
     (if tr
      then (t\<lparr>data := map (\<lambda>(i, v). if g (k + i) < drop_p dr then Fin 0
                                     else fmul v (round32 (1 / (1 - drop_p dr))))
                          (enumerate 0 (data t))\<rparr>,
            k + length (data t))
      else (t, k))"

section \<open>Tensor operations used by the output head\<close>

definition view :: "'a tensor \<Rightarrow> nat list \<Rightarrow> error + 'a tensor" where
  "view t sh = (if numel sh = length (data t) then Inr (t\<lparr>shape := sh\<rparr>) else Inl RuntimeError)"

text \<open>
  Clamping keeps NaN; any other value below the lower bound becomes the lower bound,
  and what is then above the upper bound becomes the upper bound.
\<close>

definition clamp1 :: "real \<Rightarrow> real \<Rightarrow> f32 \<Rightarrow> f32" where
  "clamp1 lo hi x =
     (if x = NaN then NaN
      else (let y = (if flt x (Fin lo) then Fin lo else x)
            in if flt (Fin hi) y then Fin hi else y))"

definition clamp :: "real \<Rightarrow> real \<Rightarrow> f32 tensor \<Rightarrow> f32 tensor" where
  "clamp lo hi t = t\<lparr>data := map (clamp1 lo hi) (data t)\<rparr>"

text \<open>
  The index of the maximum along a row: the scan keeps the first element and moves to
  a later one only when that one is not below or equal, which a greater element and a
  NaN are; it stops at a NaN. So the result is the index of the first NaN if there is
  one, and of the first maximal element otherwise.
\<close>

fun argmax_from :: "f32 list \<Rightarrow> nat \<Rightarrow> f32 \<Rightarrow> nat \<Rightarrow> nat" where
  "argmax_from [] i best bi = bi"
| "argmax_from (v # vs) i best bi =
     (if \<not> fle v best
      then (if v = NaN then i else argmax_from vs (Suc i) v i)
      else argmax_from vs (Suc i) best bi)"

definition argmax :: "f32 list \<Rightarrow> nat" where
  "argmax r = (case r of [] \<Rightarrow> 0 | v # vs \<Rightarrow> if v = NaN then 0 else argmax_from vs 1 v 0)"

definition max_dim1 :: "f32 tensor \<Rightarrow> error + (f32 tensor \<times> nat tensor)" where
  "max_dim1 t =
     (case shape t of
        [n, v] \<Rightarrow>
          if v = 0 then Inl IndexError
          else Inr (\<lparr>shape = [n], data = map (\<lambda>r. r ! argmax r) (rows n v (data t)),
                     requires_grad = requires_grad t\<rparr>,
                    \<lparr>shape = [n], data = map argmax (rows n v (data t)), requires_grad = False\<rparr>)
      | _ \<Rightarrow> Inl IndexError)"

text \<open>
  Softmax along a row in binary32: the maximum of the row is subtracted, the
  exponentials are taken and summed, and each exponential is divided by the sum,
  every step rounded. A NaN in the row makes the maximum, and with it the whole row,
  NaN.
\<close>

definition fmax2 :: "f32 \<Rightarrow> f32 \<Rightarrow> f32" where
  "fmax2 m v = (if m = NaN \<or> v = NaN then NaN else if flt m v then v else m)"

definition softmax_row :: "f32 list \<Rightarrow> f32 list" where
  "softmax_row r =
     (case r of
        [] \<Rightarrow> []
      | x # xs \<Rightarrow>
          (let m = foldl fmax2 x xs;
               es = map (\<lambda>v. fexp (fsub v m)) r;
               s = foldl fadd (Fin 0) es
           in map (\<lambda>e. fdiv e s) es))"

definition softmax_dim1 :: "f32 tensor \<Rightarrow> error + f32 tensor" where
  "softmax_dim1 t =
     (case shape t of
        [n, v] \<Rightarrow> Inr (t\<lparr>data := concat (map softmax_row (rows n v (data t)))\<rparr>)
      | _ \<Rightarrow> Inl IndexError)"

section \<open>The model\<close>

definition CLAMP_EXP :: real where
  "CLAMP_EXP = 15"

record decoder_config =
  cfg_n_layer :: nat
  cfg_n_embedding :: nat
  cfg_n_state_ffn :: nat
  cfg_n_head :: nat
  cfg_dropout_residual :: real
  cfg_dropout_attention :: real
  cfg_dropout_embedding :: real
  cfg_n_context :: nat
  cfg_n_positional_embedding :: nat

text \<open>
  The decoder stack is imported from another module. It is a parameter of the model:
  its submodules (visited by the weight initialiser) and its call, which gets the
  store, the training flag, the random stream, the embedded batch, the incoming cache,
  the maximum cache length and the cursor of the random stream, and returns the hidden
  states and the new cache, or an error, with the cursor after the call.
\<close>

record TransformerDecoder =
  dec_modules :: "nn_module list"
  dec_call :: "store \<Rightarrow> bool \<Rightarrow> gen \<Rightarrow> f32 tensor \<Rightarrow> pyobj option \<Rightarrow> nat option \<Rightarrow> nat
                 \<Rightarrow> (error + (f32 tensor \<times> pyobj)) \<times> nat"

record TransformerXL =
  word_embedding :: Embedding
  word_decoding :: Linear
  dropout_embedding :: Dropout
  transformer_decoder :: TransformerDecoder
  initializer_range :: real
  training :: bool

definition init_weight_module :: "gen \<Rightarrow> real \<Rightarrow> nn_module \<Rightarrow> store \<times> nat \<Rightarrow> store \<times> nat" where
  "init_weight_module g std m sk =
     (case m of
        MLinear l \<Rightarrow>
          (let sk1 = normal_inplace g 0 std (lin_weight l) sk
           in case lin_bias l of None \<Rightarrow> sk1 | Some b \<Rightarrow> fill_inplace 0 b sk1)
      | MEmbedding e \<Rightarrow> normal_inplace g 0 std (emb_weight e) sk
      | MLayerNorm n \<Rightarrow> fill_inplace 1 (ln_weight n) (fill_inplace 0 (ln_bias n) sk)
      | _ \<Rightarrow> sk)"

text \<open>
  The modules in the order in which \<open>apply\<close> visits them: the children in the order
  of their registration, the decoder stack with its own submodules among them, and
  the model itself last.
\<close>

definition modules :: "TransformerXL \<Rightarrow> nn_module list" where
  "modules self =
     [MEmbedding (word_embedding self), MLinear (word_decoding self),
      MDropout (dropout_embedding self)] @ dec_modules (transformer_decoder self) @ [MOther]"

definition init_weight :: "gen \<Rightarrow> TransformerXL \<Rightarrow> store \<times> nat \<Rightarrow> store \<times> nat" where
  "init_weight g self sk =
     fold (init_weight_module g (initializer_range self)) (modules self) sk"

definition TransformerXL_init ::
  "gen \<Rightarrow> (decoder_config \<Rightarrow> store \<Rightarrow> nat \<Rightarrow> error + (TransformerDecoder \<times> store \<times> nat))
     \<Rightarrow> nat \<Rightarrow> nat \<Rightarrow> nat \<Rightarrow> nat \<Rightarrow> nat \<Rightarrow> real \<Rightarrow> real \<Rightarrow> real \<Rightarrow> nat \<Rightarrow> nat \<Rightarrow> real
     \<Rightarrow> store \<Rightarrow> nat \<Rightarrow> error + (TransformerXL \<times> store \<times> nat)" where
  "TransformerXL_init g mk_decoder n_layer n_embedding n_state_ffn n_head n_context
       dropout_residual dropout_attention dropout_emb vocab_size n_positional_embedding
       init_range st0 k0 =
     (let (we, st1, k1) = nn_Embedding g vocab_size n_embedding st0 k0;
          (wd0, st2, k2) = nn_Linear g n_embedding vocab_size False st1 k1;
          wd = wd0\<lparr>lin_weight := emb_weight we\<rparr>
      in case nn_Dropout dropout_emb of
           Inl e \<Rightarrow> Inl e
         | Inr de \<Rightarrow>
             (case mk_decoder
                     \<lparr>cfg_n_layer = n_layer, cfg_n_embedding = n_embedding,
                      cfg_n_state_ffn = n_state_ffn, cfg_n_head = n_head,
                      cfg_dropout_residual = dropout_residual,
                      cfg_dropout_attention = dropout_attention,
                      cfg_dropout_embedding = dropout_emb, cfg_n_context = n_context,
                      cfg_n_positional_embedding = n_positional_embedding\<rparr> st2 k2 of
                Inl e \<Rightarrow> Inl e
              | Inr (td, st3, k3) \<Rightarrow>
                  (let self = \<lparr>word_embedding = we, word_decoding = wd, dropout_embedding = de,
                               transformer_decoder = td, initializer_range = init_range,
                               training = True\<rparr>
                   in case init_weight g self (st3, k3) of
                        (st4, k4) \<Rightarrow> Inr (self, st4, k4))))"

text \<open>
  The forward call: embedding lookup, decoder stack, detachment of the returned cache,
  then the output head on the hidden states flattened to two dimensions: projection,
  clamp, argmax and softmax along the vocabulary axis, and the views back to three
  (two for the predictions) dimensions. The dropout module of the model does not
  occur in it; the cursor of the random stream moves in the decoder stack only.
\<close>

definition forward ::
  "TransformerXL \<Rightarrow> store \<Rightarrow> gen \<Rightarrow> int tensor \<Rightarrow> pyobj option \<Rightarrow> nat option \<Rightarrow> nat
     \<Rightarrow> (error + ((f32 tensor \<times> f32 tensor \<times> nat tensor) \<times> pyobj)) \<times> nat" where
  "forward self st g x cached_key_value max_cache_length k =
     (case Embedding_call st (word_embedding self) x of
        Inl e \<Rightarrow> (Inl e, k)
      | Inr w_embedding \<Rightarrow>
     (case dec_call (transformer_decoder self) st (training self) g w_embedding
                    cached_key_value max_cache_length k of
        (Inl e, k1) \<Rightarrow> (Inl e, k1)
      | (Inr (logit, ckv), k1) \<Rightarrow>
     (let ckv' = repackage_hidden ckv
      in (case shape logit of
           [n_batch, n_seq, n_dim] \<Rightarrow>
     (case view logit [n_batch * n_seq, n_dim] of
        Inl e \<Rightarrow> Inl e
      | Inr logit2 \<Rightarrow>
     (case Linear_call st (word_decoding self) logit2 of
        Inl e \<Rightarrow> Inl e
      | Inr raw \<Rightarrow>
     (let output = clamp (- CLAMP_EXP) CLAMP_EXP raw
      in case max_dim1 output of
           Inl e \<Rightarrow> Inl e
         | Inr (vals, idx) \<Rightarrow>
     (case view idx [n_batch, n_seq] of
        Inl e \<Rightarrow> Inl e
      | Inr pred \<Rightarrow>
     (case softmax_dim1 output of
        Inl e \<Rightarrow> Inl e
      | Inr sm \<Rightarrow>
     (case view sm [n_batch, n_seq, shape output ! 1] of
        Inl e \<Rightarrow> Inl e
      | Inr prob \<Rightarrow>
     (case view output [n_batch, n_seq, shape output ! 1] of
        Inl e \<Rightarrow> Inl e
      | Inr output3 \<Rightarrow> Inr ((output3, prob, pred), ckv'))))))))
         | _ \<Rightarrow> Inl ValueError), k1)))"

text \<open>The data of the three tensors a forward call returns.\<close>

definition out_data :: "(f32 tensor \<times> f32 tensor \<times> nat tensor) \<times> pyobj \<Rightarrow> f32 list" where
  "out_data r = data (fst (fst r))"

definition prob_data :: "(f32 tensor \<times> f32 tensor \<times> nat tensor) \<times> pyobj \<Rightarrow> f32 list" where
  "prob_data r = data (fst (snd (fst r)))"

definition pred_data :: "(f32 tensor \<times> f32 tensor \<times> nat tensor) \<times> pyobj \<Rightarrow> nat list" where
  "pred_data r = data (snd (snd (fst r)))"

section \<open>The decoder stack's cache policy\<close>

text \<open>
  Modelled from the spec: the decoder stack (class TransformerDecoder of module
  util_transformer) is not among the sources. Its cache policy is taken from the
  specification: the cache has one entry per layer, each entry a key tensor and a
  value tensor whose first dimension is the cached length; the outgoing entry is the
  incoming entry (if any) concatenated with the keys and values of the current
  segment, truncated from the front to the maximum cache length, which defaults to
  the configured context length. The hidden states, the keys and values of the
  current segment and the number of random draws are left open, as functions
  \<open>hidden\<close>, \<open>segment_kv\<close> and \<open>consumed\<close>.
\<close>

definition dim0 :: "'a tensor \<Rightarrow> nat" where
  "dim0 t = (case shape t of [] \<Rightarrow> 0 | n # _ \<Rightarrow> n)"

text \<open>
  Modelled from the spec: concatenation of the incoming cache with the keys or values
  of the current segment, along the first dimension (the cached length).
\<close>

definition cat0 :: "f32 tensor \<Rightarrow> f32 tensor \<Rightarrow> error + f32 tensor" where
  "cat0 a b =
     (case shape a of
        [] \<Rightarrow> Inl RuntimeError
      | n # ra \<Rightarrow>
          (case shape b of
             [] \<Rightarrow> Inl RuntimeError
           | k # rb \<Rightarrow>
               if ra = rb
               then Inr \<lparr>shape = (n + k) # ra, data = data a @ data b,
                         requires_grad = (requires_grad a \<or> requires_grad b)\<rparr>
               else Inl RuntimeError))"

text \<open>
  Modelled from the spec: truncation from the front to the maximum cache length; the
  oldest entries are dropped, the newest \<open>M\<close> kept.
\<close>

definition keep_last0 :: "nat \<Rightarrow> f32 tensor \<Rightarrow> f32 tensor" where
  "keep_last0 M t =
     (case shape t of
        [] \<Rightarrow> t
      | n # r \<Rightarrow>
          if n \<le> M then t
          else t\<lparr>shape := M # r, data := drop ((n - M) * numel r) (data t)\<rparr>)"

fun collect :: "(error + 'a) list \<Rightarrow> error + 'a list" where
  "collect [] = Inr []"
| "collect (r # rs) =
     (case r of
        Inl e \<Rightarrow> Inl e
      | Inr v \<Rightarrow> (case collect rs of Inl e \<Rightarrow> Inl e | Inr vs \<Rightarrow> Inr (v # vs)))"

text \<open>
  Modelled from the spec: an incoming cache has exactly \<open>n_layer\<close> entries, each a
  key tensor and a value tensor; without a cache every layer starts with none.
\<close>

fun cache_entry :: "pyobj \<Rightarrow> error + (f32 tensor \<times> f32 tensor)" where
  "cache_entry (Seq k [Tensor key, Tensor val]) = Inr (key, val)"
| "cache_entry _ = Inl ValueError"

definition cache_entries ::
  "nat \<Rightarrow> pyobj option \<Rightarrow> error + (f32 tensor \<times> f32 tensor) option list" where
  "cache_entries n_layer c =
     (case c of
        None \<Rightarrow> Inr (replicate n_layer None)
      | Some (Tensor t) \<Rightarrow> Inl ValueError
      | Some (Seq k es) \<Rightarrow>
          if length es = n_layer
          then (case collect (map cache_entry es) of
                  Inl e \<Rightarrow> Inl e
                | Inr kvs \<Rightarrow> Inr (map Some kvs))
          else Inl ValueError)"

text \<open>
  Modelled from the spec: the outgoing entry of one layer.
\<close>

definition update_entry ::
  "nat \<Rightarrow> (f32 tensor \<times> f32 tensor) option \<Rightarrow> f32 tensor \<times> f32 tensor \<Rightarrow> error + pyobj" where
  "update_entry M prev new =
     (case prev of
        None \<Rightarrow>
          Inr (Seq PyTuple [Tensor (keep_last0 M (fst new)), Tensor (keep_last0 M (snd new))])
      | Some (pk, pv) \<Rightarrow>
          (case cat0 pk (fst new) of
             Inl e \<Rightarrow> Inl e
           | Inr ck \<Rightarrow>
               (case cat0 pv (snd new) of
                  Inl e \<Rightarrow> Inl e
                | Inr cv \<Rightarrow>
                    Inr (Seq PyTuple [Tensor (keep_last0 M ck), Tensor (keep_last0 M cv)]))))"

text \<open>
  Modelled from the spec: the call of the decoder stack (TransformerDecoder, not among
  the sources), as far as the cache goes. The maximum cache length defaults to the
  configured context length when the caller gives none.
\<close>

definition spec_decoder_call ::
  "nat \<Rightarrow> nat
     \<Rightarrow> (store \<Rightarrow> bool \<Rightarrow> gen \<Rightarrow> f32 tensor \<Rightarrow> pyobj option \<Rightarrow> nat \<Rightarrow> f32 tensor)
     \<Rightarrow> (nat \<Rightarrow> store \<Rightarrow> bool \<Rightarrow> gen \<Rightarrow> f32 tensor \<Rightarrow> pyobj option \<Rightarrow> nat \<Rightarrow> f32 tensor \<times> f32 tensor)
     \<Rightarrow> (bool \<Rightarrow> f32 tensor \<Rightarrow> nat)
     \<Rightarrow> store \<Rightarrow> bool \<Rightarrow> gen \<Rightarrow> f32 tensor \<Rightarrow> pyobj option \<Rightarrow> nat option \<Rightarrow> nat
     \<Rightarrow> (error + (f32 tensor \<times> pyobj)) \<times> nat" where
  "spec_decoder_call n_layer n_context hidden segment_kv consumed st tr g e c m k =
     (let M = (case m of None \<Rightarrow> n_context | Some k' \<Rightarrow> k')
      in case cache_entries n_layer c of
           Inl err \<Rightarrow> (Inl err, k)
         | Inr prevs \<Rightarrow>
             (case collect (map (\<lambda>i. update_entry M (prevs ! i) (segment_kv i st tr g e c k))
                                [0..<n_layer]) of
                Inl err \<Rightarrow> (Inl err, k)
              | Inr entries \<Rightarrow>
                  (Inr (hidden st tr g e c k, Seq PyList entries), k + consumed tr e)))"

text \<open>
  Modelled from the spec: the randomness of the decoder stack (TransformerDecoder, not
  among the sources). The specification has its dropouts applied in training-mode
  calls only, and the computation deterministic over its explicit inputs otherwise.
  So the hidden states and the keys and values of the current segment are functions
  of the store, the embedded batch, the incoming cache and, in training mode only,
  the random stream from the cursor on; a call in training mode takes \<open>n_draws\<close>
  draws, a call in evaluation mode none.
\<close>

definition spec_draws :: "bool \<Rightarrow> gen \<Rightarrow> nat \<Rightarrow> gen option" where
  "spec_draws tr g k = (if tr then Some (\<lambda>i. g (k + i)) else None)"

definition spec_dropout_decoder_call ::
  "nat \<Rightarrow> nat
     \<Rightarrow> (store \<Rightarrow> gen option \<Rightarrow> f32 tensor \<Rightarrow> pyobj option \<Rightarrow> f32 tensor)
     \<Rightarrow> (nat \<Rightarrow> store \<Rightarrow> gen option \<Rightarrow> f32 tensor \<Rightarrow> pyobj option \<Rightarrow> f32 tensor \<times> f32 tensor)
     \<Rightarrow> (f32 tensor \<Rightarrow> nat)
     \<Rightarrow> store \<Rightarrow> bool \<Rightarrow> gen \<Rightarrow> f32 tensor \<Rightarrow> pyobj option \<Rightarrow> nat option \<Rightarrow> nat
     \<Rightarrow> (error + (f32 tensor \<times> pyobj)) \<times> nat" where
  "spec_dropout_decoder_call n_layer n_context hidden segment_kv n_draws =
     spec_decoder_call n_layer n_context
       (\<lambda>st tr g e c k. hidden st (spec_draws tr g k) e c)
       (\<lambda>i st tr g e c k. segment_kv i st (spec_draws tr g k) e c)
       (\<lambda>tr e. if tr then n_draws e else 0)"

text \<open>
  A chain of forward calls on successive segments: the first call gets the given
  cache, each later call the cache the previous call returned, and every call starts
  at the cursor the previous call left.
\<close>

fun chain ::
  "TransformerXL \<Rightarrow> store \<Rightarrow> gen \<Rightarrow> nat option \<Rightarrow> int tensor list \<Rightarrow> pyobj option \<Rightarrow> nat
     \<Rightarrow> (error + pyobj option) \<times> nat" where
  "chain self st g m [] c k = (Inr c, k)"
| "chain self st g m (x # xs) c k =
     (case forward self st g x c m k of
        (Inl e, k1) \<Rightarrow> (Inl e, k1)
      | (Inr (outs, c'), k1) \<Rightarrow> chain self st g m xs (Some c') k1)"

text \<open>
  Two forward calls on the same model with the same ids, cache and maximum cache
  length, the second started at the cursor the first left.
\<close>

definition two_calls ::
  "TransformerXL \<Rightarrow> store \<Rightarrow> gen \<Rightarrow> int tensor \<Rightarrow> pyobj option \<Rightarrow> nat option \<Rightarrow> nat
     \<Rightarrow> (error + ((f32 tensor \<times> f32 tensor \<times> nat tensor) \<times> pyobj))
       \<times> (error + ((f32 tensor \<times> f32 tensor \<times> nat tensor) \<times> pyobj))" where
  "two_calls self st g x c m k =
     (case forward self st g x c m k of
        (r1, k1) \<Rightarrow> (case forward self st g x c m k1 of (r2, k2) \<Rightarrow> (r1, r2)))"

definition cached_lengths :: "pyobj option \<Rightarrow> nat list" where
  "cached_lengths c = (case c of None \<Rightarrow> [] | Some h \<Rightarrow> map dim0 (tensors h))"

text \<open>
  The state of the cache between two calls of a chain: absent, with cached length 0,
  or one entry per layer, each a key and a value tensor whose first dimension is the
  cached length and whose other dimensions are fixed.
\<close>

fun entry_shapes :: "pyobj \<Rightarrow> (nat list \<times> nat list) option" where
  "entry_shapes (Seq k [Tensor key, Tensor val]) = Some (shape key, shape val)"
| "entry_shapes _ = None"

definition cache_inv :: "nat \<Rightarrow> nat \<Rightarrow> nat list \<Rightarrow> pyobj option \<Rightarrow> bool" where
  "cache_inv n_layer len rest c =
     (case c of
        None \<Rightarrow> len = 0
      | Some (Tensor t) \<Rightarrow> False
      | Some (Seq k es) \<Rightarrow>
          length es = n_layer
          \<and> list_all (\<lambda>e. entry_shapes e = Some (len # rest, len # rest)) es)"

section \<open>Small instances\<close>

text \<open>
  A model with two tokens and two embedding dimensions, whose decoder stack hands the
  embedded batch back as the hidden states and draws nothing, used to run the
  definitions on concrete inputs. The embedding matrix has the rows \<open>(8, 0)\<close> and
  \<open>(-2, 1)\<close>.
\<close>

definition demo_weight :: "f32 tensor" where
  "demo_weight = \<lparr>shape = [2, 2], data = [Fin 8, Fin 0, Fin (- 2), Fin 1], requires_grad = True\<rparr>"

definition demo_store :: store where
  "demo_store = \<lparr>cells = Map.empty(0 \<mapsto> demo_weight), next_addr = 1\<rparr>"

definition echo_decoder :: TransformerDecoder where
  "echo_decoder =
     \<lparr>dec_modules = [], dec_call = (\<lambda>st tr g e c m k. (Inr (e, Seq PyList []), k))\<rparr>"

definition demo_model :: TransformerXL where
  "demo_model =
     \<lparr>word_embedding = \<lparr>num_embeddings = 2, embedding_dim = 2, emb_weight = 0\<rparr>,
      word_decoding = \<lparr>in_features = 2, out_features = 2, lin_weight = 0, lin_bias = None\<rparr>,
      dropout_embedding = \<lparr>drop_p = 1 / 2\<rparr>,
      transformer_decoder = echo_decoder,
      initializer_range = 1,
      training = True\<rparr>"

definition demo_ids :: "int tensor" where
  "demo_ids = \<lparr>shape = [1, 2], data = [0, 1], requires_grad = False\<rparr>"

definition empty_store :: store where
  "empty_store = \<lparr>cells = Map.empty, next_addr = 0\<rparr>"

definition mk_echo ::
  "decoder_config \<Rightarrow> store \<Rightarrow> nat \<Rightarrow> error + (TransformerDecoder \<times> store \<times> nat)" where
  "mk_echo cfg st k = Inr (echo_decoder, st, k)"

definition demo_gen :: gen where
  "demo_gen i = real i"

definition zero_gen :: gen where
  "zero_gen i = 0"

definition one_gen :: gen where
  "one_gen i = 1"

text \<open>
  A decoder stack that applies dropout with probability one half to its input in
  training mode and nothing else, and an instance of the cache policy with two
  layers whose keys and values have one head of dimension one.
\<close>

definition dropout_decoder :: TransformerDecoder where
  "dropout_decoder =
     \<lparr>dec_modules = [],
      dec_call = (\<lambda>st tr g e c m k.
         (Inr (fst (Dropout_call \<lparr>drop_p = 1 / 2\<rparr> tr g e k), Seq PyList []),
          snd (Dropout_call \<lparr>drop_p = 1 / 2\<rparr> tr g e k)))\<rparr>"

definition demo_hidden ::
  "store \<Rightarrow> bool \<Rightarrow> gen \<Rightarrow> f32 tensor \<Rightarrow> pyobj option \<Rightarrow> nat \<Rightarrow> f32 tensor" where
  "demo_hidden st tr g e c k = e"

definition demo_segment_kv ::
  "nat \<Rightarrow> store \<Rightarrow> bool \<Rightarrow> gen \<Rightarrow> f32 tensor \<Rightarrow> pyobj option \<Rightarrow> nat \<Rightarrow> f32 tensor \<times> f32 tensor" where
  "demo_segment_kv i st tr g e c k =
     (\<lparr>shape = [shape e ! 1, shape e ! 0, 1, 1],
       data = replicate (shape e ! 1 * shape e ! 0) (Fin (real i)), requires_grad = True\<rparr>,
      \<lparr>shape = [shape e ! 1, shape e ! 0, 1, 1],
       data = replicate (shape e ! 1 * shape e ! 0) (Fin (- real i)), requires_grad = True\<rparr>)"

definition demo_consumed :: "bool \<Rightarrow> f32 tensor \<Rightarrow> nat" where
  "demo_consumed tr e = (if tr then length (data e) else 0)"

definition demo_xl :: TransformerXL where
  "demo_xl =
     demo_model\<lparr>transformer_decoder :=
       \<lparr>dec_modules = [],
        dec_call = spec_decoder_call 2 3 demo_hidden demo_segment_kv demo_consumed\<rparr>\<rparr>"

text \<open>
  A decoder stack following the specification in its cache and in its randomness: in
  training mode the hidden states are the embedded batch under dropout with
  probability one half, in evaluation mode the embedded batch itself. The stream
  \<open>step_gen\<close> has four draws below one half, then draws above.
\<close>

definition masked_hidden :: "store \<Rightarrow> gen option \<Rightarrow> f32 tensor \<Rightarrow> pyobj option \<Rightarrow> f32 tensor" where
  "masked_hidden st r e c =
     (case r of None \<Rightarrow> e | Some d \<Rightarrow> fst (Dropout_call \<lparr>drop_p = 1 / 2\<rparr> True d e 0))"

definition masked_segment_kv ::
  "nat \<Rightarrow> store \<Rightarrow> gen option \<Rightarrow> f32 tensor \<Rightarrow> pyobj option \<Rightarrow> f32 tensor \<times> f32 tensor" where
  "masked_segment_kv i st r e c =
     (\<lparr>shape = [shape e ! 1, shape e ! 0, 1, 1],
       data = replicate (shape e ! 1 * shape e ! 0) (Fin (real i)), requires_grad = True\<rparr>,
      \<lparr>shape = [shape e ! 1, shape e ! 0, 1, 1],
       data = replicate (shape e ! 1 * shape e ! 0) (Fin (- real i)), requires_grad = True\<rparr>)"

definition masked_draws :: "f32 tensor \<Rightarrow> nat" where
  "masked_draws e = length (data e)"

definition masked_xl :: TransformerXL where
  "masked_xl =
     demo_model\<lparr>transformer_decoder :=
       \<lparr>dec_modules = [],
        dec_call = spec_dropout_decoder_call 2 3 masked_hidden masked_segment_kv masked_draws\<rparr>\<rparr>"

definition step_gen :: gen where
  "step_gen i = (if i < 4 then 0 else 1)"

text \<open>
  A model whose embedding matrix has the rows \<open>(2\<^sup>1\<^sup>0\<^sup>0, 2\<^sup>1\<^sup>0\<^sup>0)\<close> and
  \<open>(2\<^sup>1\<^sup>0\<^sup>0, -2\<^sup>1\<^sup>0\<^sup>0)\<close>, finite binary32 numbers whose products overflow.
\<close>

definition big :: real where
  "big = 2 ^ 100"

definition big_weight :: "f32 tensor" where
  "big_weight =
     \<lparr>shape = [2, 2], data = [Fin big, Fin big, Fin big, Fin (- big)], requires_grad = True\<rparr>"

definition big_store :: store where
  "big_store = \<lparr>cells = Map.empty(0 \<mapsto> big_weight), next_addr = 1\<rparr>"

text \<open>
  A model with one embedding dimension whose embedding matrix has the rows
  \<open>2\<^sup>-\<^sup>2\<close> and \<open>2\<^sup>-\<^sup>2 + 2\<^sup>-\<^sup>2\<^sup>5\<close>, two neighbouring binary32 numbers.
\<close>

definition tie_a :: real where
  "tie_a = 1 / 2 ^ 2"

definition tie_b :: real where
  "tie_b = 1 / 2 ^ 2 + 1 / 2 ^ 25"

definition tie_weight :: "f32 tensor" where
  "tie_weight = \<lparr>shape = [2, 1], data = [Fin tie_a, Fin tie_b], requires_grad = True\<rparr>"

definition tie_store :: store where
  "tie_store = \<lparr>cells = Map.empty(0 \<mapsto> tie_weight), next_addr = 1\<rparr>"

definition tie_model :: TransformerXL where
  "tie_model =
     \<lparr>word_embedding = \<lparr>num_embeddings = 2, embedding_dim = 1, emb_weight = 0\<rparr>,
      word_decoding = \<lparr>in_features = 1, out_features = 2, lin_weight = 0, lin_bias = None\<rparr>,
      dropout_embedding = \<lparr>drop_p = 1 / 2\<rparr>,
      transformer_decoder = echo_decoder,
      initializer_range = 1,
      training = False\<rparr>"

definition tie_ids :: "int tensor" where
  "tie_ids = \<lparr>shape = [1, 1], data = [0], requires_grad = False\<rparr>"

section \<open>Rounding\<close>

lemma rne_of_int: "rne (of_int n) = n"
  by (simp add: rne_def)

lemma floor_log2_eq:
  assumes "0 < x" "2 powi n \<le> x" "x < 2 powi (n + 1)"
  shows "\<lfloor>log 2 x\<rfloor> = n"
proof -
  have "(2::real) powr real_of_int n = 2 powi n" by (rule powr_real_of_int') simp_all
  moreover have "(2::real) powr (real_of_int n + 1) = 2 powi (n + 1)"
    using powr_real_of_int'[of "2::real" "n + 1"] by simp
  ultimately show ?thesis
    using assms floor_log_eq_powr_iff[of x 2 n] by simp
qed

lemma round32_exact:
  assumes x: "x \<noteq> 0" "x = of_int m * 2 powi k" and k: "ulp_exp x \<le> k"
  shows "round32 x = (if 2 ^ 128 \<le> \<bar>x\<bar> then (if 0 < x then PInf else NInf) else Fin x)"
proof -
  define e where "e = ulp_exp x"
  have "x / 2 powi e = of_int m * (2 powi k / 2 powi e)" using x(2) by simp
  also have "2 powi k / 2 powi e = (2::real) powi (k - e)"
    by (simp add: power_int_diff)
  also have "\<dots> = 2 ^ nat (k - e)" using k by (simp add: e_def power_int_def)
  finally have q: "x / 2 powi e = of_int (m * 2 ^ nat (k - e))" by simp
  have "of_int (rne (x / 2 powi e)) * 2 powi e = x / 2 powi e * 2 powi e"
    unfolding q rne_of_int ..
  also have "\<dots> = x" by simp
  finally have y: "of_int (rne (x / 2 powi e)) * 2 powi e = x" .
  show ?thesis using x(1) y by (simp add: round32_def Let_def e_def[symmetric])
qed

lemma ulp_exp_int:
  assumes "n \<noteq> 0" "\<bar>n\<bar> < 2 ^ 24"
  shows "ulp_exp (of_int n) \<le> 0"
proof -
  have pos: "0 < \<bar>real_of_int n\<bar>" using assms(1) by simp
  have "\<bar>real_of_int n\<bar> < 2 ^ 24" using assms(2)
    by (metis of_int_abs of_int_less_numeral_power_cancel_iff)
  then have "\<bar>real_of_int n\<bar> < 2 powr 24" by simp
  then have "log 2 \<bar>real_of_int n\<bar> < 24"
    using pos by (simp add: log_less_iff)
  then have "\<lfloor>log 2 \<bar>real_of_int n\<bar>\<rfloor> < 24" by (simp add: floor_less_iff)
  then show ?thesis by (simp add: ulp_exp_def)
qed

lemma round32_of_int:
  assumes "\<bar>n\<bar> < 2 ^ 24"
  shows "round32 (of_int n) = Fin (of_int n)"
proof (cases "n = 0")
  case True
  then show ?thesis by (simp add: round32_def)
next
  case False
  have "\<bar>real_of_int n\<bar> < 2 ^ 24" using assms
    by (metis of_int_abs of_int_less_numeral_power_cancel_iff)
  then have lt: "\<not> 2 ^ 128 \<le> \<bar>real_of_int n\<bar>" by simp
  have "round32 (of_int n) = (if 2 ^ 128 \<le> \<bar>real_of_int n\<bar> then (if 0 < real_of_int n then PInf else NInf) else Fin (of_int n))"
    by (rule round32_exact[where m = n and k = 0]) (use False ulp_exp_int[OF False assms] in simp_all)
  with lt show ?thesis by simp
qed

lemma round32_numeral [simp]:
  "(numeral w :: int) < 16777216 \<Longrightarrow> round32 (numeral w) = Fin (numeral w)"
  using round32_of_int[of "numeral w"] by simp

lemma round32_neg_numeral [simp]:
  "(numeral w :: int) < 16777216 \<Longrightarrow> round32 (- numeral w) = Fin (- numeral w)"
  using round32_of_int[of "- numeral w"] by simp

lemma round32_0 [simp]: "round32 0 = Fin 0"
  by (simp add: round32_def)

lemma round32_1 [simp]: "round32 1 = Fin 1"
  using round32_of_int[of 1] by simp

lemma ulp_exp_le:
  assumes "x \<noteq> 0" "\<bar>x\<bar> < 2 powi (k + 24)" "- 149 \<le> k"
  shows "ulp_exp x \<le> k"
proof -
  have pos: "0 < \<bar>x\<bar>" using assms(1) by simp
  have "(2::real) powr real_of_int (k + 24) = 2 powi (k + 24)"
    by (rule powr_real_of_int') simp_all
  then have "\<bar>x\<bar> < 2 powr real_of_int (k + 24)" using assms(2) by simp
  then have "log 2 \<bar>x\<bar> < real_of_int (k + 24)"
    using pos by (simp add: log_less_iff)
  then have "\<lfloor>log 2 \<bar>x\<bar>\<rfloor> < k + 24" by (simp add: floor_less_iff)
  then show ?thesis using assms(3) by (simp add: ulp_exp_def)
qed

lemma round32_dyadic:
  assumes "x = of_int m * 2 powi k" "\<bar>m\<bar> < 2 ^ 24" "- 149 \<le> k" "k \<le> 104"
  shows "round32 x = Fin x"
proof (cases "x = 0")
  case True
  then show ?thesis by simp
next
  case False
  have m: "\<bar>real_of_int m\<bar> < 2 ^ 24" using assms(2)
    by (metis of_int_abs of_int_less_numeral_power_cancel_iff)
  have abs: "\<bar>x\<bar> = \<bar>real_of_int m\<bar> * 2 powi k" by (simp add: assms(1) abs_mult)
  have "\<bar>x\<bar> < 2 ^ 24 * 2 powi k" unfolding abs using m by simp
  also have "\<dots> = 2 powi (k + 24)" by (simp add: power_int_add)
  finally have lt: "\<bar>x\<bar> < 2 powi (k + 24)" .
  have "(2::real) powi (k + 24) \<le> 2 powi 128"
    using assms(4) by (intro power_int_increasing) simp_all
  with lt have "\<bar>x\<bar> < 2 ^ 128" by simp
  then have no: "\<not> 2 ^ 128 \<le> \<bar>x\<bar>" by simp
  have "round32 x = (if 2 ^ 128 \<le> \<bar>x\<bar> then (if 0 < x then PInf else NInf) else Fin x)"
    using False assms(1) ulp_exp_le[OF False lt assms(3)] by (rule round32_exact)
  with no show ?thesis by simp
qed

lemma round32_overflow_pow:
  assumes "128 \<le> n"
  shows "round32 (2 ^ n) = PInf" "round32 (- (2 ^ n)) = NInf"
proof -
  have big: "(2::real) ^ 128 \<le> 2 ^ n" by (rule power_increasing) (use assms in simp_all)
  have lt: "\<bar>(2::real) ^ n\<bar> < 2 powi (int n + 24)"
    by (simp add: power_int_add)
  have e: "ulp_exp (2 ^ n) \<le> int n" by (rule ulp_exp_le[OF _ lt]) simp_all
  have "round32 (2 ^ n) = (if 2 ^ 128 \<le> \<bar>(2::real) ^ n\<bar> then (if 0 < (2::real) ^ n then PInf else NInf) else Fin (2 ^ n))"
    by (rule round32_exact[where m = 1 and k = "int n"]) (use e in simp_all)
  then show "round32 (2 ^ n) = PInf" using big by simp
  have lt': "\<bar>- ((2::real) ^ n)\<bar> < 2 powi (int n + 24)"
    by (simp add: power_int_add)
  have e': "ulp_exp (- (2 ^ n)) \<le> int n" by (rule ulp_exp_le[OF _ lt']) simp_all
  have "round32 (- (2 ^ n)) = (if 2 ^ 128 \<le> \<bar>- ((2::real) ^ n)\<bar> then (if 0 < - ((2::real) ^ n) then PInf else NInf) else Fin (- (2 ^ n)))"
    by (rule round32_exact[where m = "- 1" and k = "int n"]) (use e' in simp_all)
  then show "round32 (- (2 ^ n)) = NInf" using big by simp
qed

lemma round32_near_one:
  assumes "1 - 1 / 2 ^ 25 < y" "y < 1"
  shows "round32 y = Fin 1"
proof -
  have "(1::real) / 2 ^ 25 < 1" by simp
  then have ypos: "0 < y" using assms(1) by linarith
  have half: "1 / 2 \<le> y"
  proof -
    have "(1::real) / 2 ^ 25 \<le> 1 / 2" by (simp add: field_simps)
    then show ?thesis using assms(1) by linarith
  qed
  have "\<lfloor>log 2 y\<rfloor> = - 1"
    by (rule floor_log2_eq) (use ypos half assms(2) in \<open>simp_all add: power_int_minus\<close>)
  then have e: "ulp_exp y = - 24" using ypos by (simp add: ulp_exp_def)
  have p: "(2::real) powi (- 24) = 1 / 2 ^ 24" by (simp add: power_int_minus inverse_eq_divide)
  define q where "q = y * 2 ^ 24"
  have q: "y / 2 powi (- 24) = q" by (simp add: p q_def)
  have qlo: "2 ^ 24 - 1 / 2 < q"
  proof -
    have "(1 - 1 / 2 ^ 25) * 2 ^ 24 < y * 2 ^ 24" using assms(1) by simp
    moreover have "(1 - 1 / 2 ^ 25) * 2 ^ 24 = (2::real) ^ 24 - 1 / 2" by (simp add: field_simps)
    ultimately show ?thesis by (simp add: q_def)
  qed
  have qhi: "q < 2 ^ 24" using assms(2) by (simp add: q_def)
  have fl: "\<lfloor>q\<rfloor> = 2 ^ 24 - 1"
    by (rule floor_unique) (use qlo qhi in simp_all)
  have r: "rne q = 2 ^ 24"
    using qlo by (simp add: rne_def fl Let_def)
  have "of_int (rne (y / 2 powi (- 24))) * 2 powi (- 24) = of_int (rne q) * (1 / 2 ^ 24 :: real)"
    by (simp only: q) (simp only: p)
  also have "\<dots> = 1" by (simp add: r)
  finally have "of_int (rne (y / 2 powi (- 24))) * 2 powi (- 24) = (1::real)" .
  then show ?thesis using ypos by (simp add: round32_def e Let_def)
qed

lemma fexp_tiny: "fexp (Fin (- (1 / 2 ^ 27))) = Fin 1"
proof -
  have "1 + (- (1 / 2 ^ 27)) \<le> exp (- (1 / 2 ^ 27 :: real))" by (rule exp_ge_add_one_self)
  moreover have "(1::real) - 1 / 2 ^ 25 < 1 + (- (1 / 2 ^ 27))" by (simp add: field_simps)
  ultimately have lo: "1 - 1 / 2 ^ 25 < exp (- (1 / 2 ^ 27 :: real))" by linarith
  have hi: "exp (- (1 / 2 ^ 27 :: real)) < 1" by simp
  show ?thesis using round32_near_one[OF lo hi] by simp
qed

section \<open>The order of binary32 numbers\<close>

lemma fle_refl: "x \<noteq> NaN \<Longrightarrow> fle x x"
  by (cases x) simp_all

lemma fle_trans: "fle x y \<Longrightarrow> fle y z \<Longrightarrow> fle x z"
  by (cases x; cases y; cases z) simp_all

lemma fle_total: "x \<noteq> NaN \<Longrightarrow> y \<noteq> NaN \<Longrightarrow> fle x y \<or> fle y x"
  by (cases x; cases y) auto

lemma fle_antisym: "fle x y \<Longrightarrow> fle y x \<Longrightarrow> x = y"
  by (cases x; cases y) simp_all

lemma not_fle_flt: "x \<noteq> NaN \<Longrightarrow> y \<noteq> NaN \<Longrightarrow> \<not> fle x y \<Longrightarrow> flt y x"
  using fle_total[of x y] by (auto simp: flt_def)

lemma fle_NaN: "\<not> fle NaN y" "\<not> fle x NaN"
  by (cases x; simp)+

lemma clamp1_cases:
  "clamp1 (- 15) 15 x =
     (if fle (Fin 15) x then Fin 15 else if fle x (Fin (- 15)) then Fin (- 15) else x)"
  by (cases x) (auto simp: clamp1_def flt_def Let_def)

lemma clamp1_range: "clamp1 (- 15) 15 x = NaN \<or> (fle (Fin (- 15)) (clamp1 (- 15) 15 x) \<and> fle (clamp1 (- 15) 15 x) (Fin 15))"
  by (cases x) (auto simp: clamp1_def flt_def Let_def)

lemma clamp1_NaN_iff: "clamp1 lo hi x = NaN \<longleftrightarrow> x = NaN"
  by (cases x) (auto simp: clamp1_def flt_def Let_def)

section \<open>Rounding is monotone\<close>

lemma rne_le_int: "q \<le> of_int N \<Longrightarrow> rne q \<le> N"
proof -
  assume a: "q \<le> of_int N"
  show ?thesis
  proof (cases "q = of_int N")
    case True
    then show ?thesis by (simp add: rne_of_int)
  next
    case False
    with a have "q < of_int N" by simp
    then have "\<lfloor>q\<rfloor> < N" by (simp add: floor_less_iff)
    then have "\<lfloor>q\<rfloor> + 1 \<le> N" by simp
    moreover have "rne q \<le> \<lfloor>q\<rfloor> + 1" by (simp add: rne_def Let_def)
    ultimately show ?thesis by linarith
  qed
qed

lemma rne_ge_int: "of_int N \<le> q \<Longrightarrow> N \<le> rne q"
proof -
  assume "of_int N \<le> q"
  then have "N \<le> \<lfloor>q\<rfloor>" by (simp add: le_floor_iff)
  moreover have "\<lfloor>q\<rfloor> \<le> rne q" by (simp add: rne_def Let_def)
  ultimately show ?thesis by linarith
qed

lemma rne_mono: "q \<le> q' \<Longrightarrow> rne q \<le> rne q'"
proof -
  assume a: "q \<le> q'"
  have f: "\<lfloor>q\<rfloor> \<le> \<lfloor>q'\<rfloor>" using a by (rule floor_mono)
  show ?thesis
  proof (cases "\<lfloor>q\<rfloor> = \<lfloor>q'\<rfloor>")
    case True
    then show ?thesis using a by (auto simp: rne_def Let_def)
  next
    case False
    with f have "\<lfloor>q\<rfloor> + 1 \<le> \<lfloor>q'\<rfloor>" by simp
    moreover have "rne q \<le> \<lfloor>q\<rfloor> + 1" by (simp add: rne_def Let_def)
    moreover have "\<lfloor>q'\<rfloor> \<le> rne q'" by (simp add: rne_def Let_def)
    ultimately show ?thesis by linarith
  qed
qed

lemma round32_cases:
  "round32 x = (if 2 ^ 128 \<le> \<bar>rnd x\<bar> then (if 0 < x then PInf else NInf) else Fin (rnd x))"
  by (simp add: round32_def Let_def rnd_def rne_def)

lemma binade:
  assumes "0 < x"
  shows "2 powi \<lfloor>log 2 x\<rfloor> \<le> x" "x < 2 powi (\<lfloor>log 2 x\<rfloor> + 1)"
proof -
  have p: "(2::real) powr real_of_int n = 2 powi n" for n
    by (rule powr_real_of_int') simp_all
  have "2 powr real_of_int \<lfloor>log 2 x\<rfloor> \<le> x \<and> x < 2 powr (real_of_int \<lfloor>log 2 x\<rfloor> + 1)"
    using assms floor_log_eq_powr_iff[of x 2 "\<lfloor>log 2 x\<rfloor>"] by simp
  moreover have "(2::real) powr (real_of_int \<lfloor>log 2 x\<rfloor> + 1) = 2 powi (\<lfloor>log 2 x\<rfloor> + 1)"
    using p[of "\<lfloor>log 2 x\<rfloor> + 1"] by simp
  ultimately show "2 powi \<lfloor>log 2 x\<rfloor> \<le> x" "x < 2 powi (\<lfloor>log 2 x\<rfloor> + 1)"
    using p[of "\<lfloor>log 2 x\<rfloor>"] by simp_all
qed


lemma ulp_exp_mono: "0 < x \<Longrightarrow> x \<le> y \<Longrightarrow> ulp_exp x \<le> ulp_exp y"
proof -
  assume a: "0 < x" "x \<le> y"
  then have "log 2 x \<le> log 2 y" by simp
  then have "\<lfloor>log 2 x\<rfloor> \<le> \<lfloor>log 2 y\<rfloor>" by (rule floor_mono)
  then show ?thesis using a by (simp add: ulp_exp_def)
qed

lemma rnd_mono_pos:
  assumes "0 < x" "x \<le> y"
  shows "rnd x \<le> rnd y"
proof -
  have y: "0 < y" using assms by simp
  have le: "ulp_exp x \<le> ulp_exp y" using assms by (rule ulp_exp_mono)
  show ?thesis
  proof (cases "ulp_exp x = ulp_exp y")
    case True
    have "x / 2 powi ulp_exp y \<le> y / 2 powi ulp_exp y"
      using assms by (simp add: divide_right_mono)
    then have "rne (x / 2 powi ulp_exp y) \<le> rne (y / 2 powi ulp_exp y)" by (rule rne_mono)
    then have "real_of_int (rne (x / 2 powi ulp_exp y)) \<le> real_of_int (rne (y / 2 powi ulp_exp y))"
      by simp
    then have "real_of_int (rne (x / 2 powi ulp_exp y)) * 2 powi ulp_exp y
        \<le> real_of_int (rne (y / 2 powi ulp_exp y)) * 2 powi ulp_exp y"
      by (rule mult_right_mono) simp
    then show ?thesis by (simp add: rnd_def True)
  next
    case False
    define Ex where "Ex = \<lfloor>log 2 x\<rfloor>"
    define Ey where "Ey = \<lfloor>log 2 y\<rfloor>"
    define ex where "ex = ulp_exp x"
    define ey where "ey = ulp_exp y"
    have lt: "ex < ey" using le False by (simp add: ex_def ey_def)
    have exd: "ex = max (Ex - 23) (- 149)" using assms(1) by (simp add: ex_def Ex_def ulp_exp_def)
    have eyd: "ey = max (Ey - 23) (- 149)" using y by (simp add: ey_def Ey_def ulp_exp_def)
    have ey: "ey = Ey - 23" using lt exd eyd by linarith
    have EE: "Ex + 1 \<le> Ey" using lt exd eyd by linarith
    have xb: "x < 2 powi (Ex + 1)" unfolding Ex_def using assms(1) by (rule binade(2))
    have yb: "2 powi Ey \<le> y" unfolding Ey_def using y by (rule binade(1))
    have "(2::real) powi (Ex + 1) \<le> 2 powi Ey" using EE by (simp add: power_int_increasing)
    with xb have xB: "x \<le> 2 powi Ey" by simp
    define n where "n = nat (Ey - ex)"
    have n: "int n = Ey - ex" using lt ey by (simp add: n_def)
    have B: "(2::real) powi Ey = of_int (2 ^ n) * 2 powi ex"
    proof -
      have "(2::real) powi Ey = 2 powi (int n + ex)" using n by simp
      also have "\<dots> = 2 powi int n * 2 powi ex" by (simp add: power_int_add)
      finally show ?thesis by simp
    qed
    have "x / 2 powi ex \<le> of_int (2 ^ n)"
      using xB B by (simp add: field_simps)
    then have "rne (x / 2 powi ex) \<le> 2 ^ n" by (rule rne_le_int)
    then have "real_of_int (rne (x / 2 powi ex)) \<le> real_of_int (2 ^ n)" by linarith
    then have "real_of_int (rne (x / 2 powi ex)) * 2 powi ex \<le> real_of_int (2 ^ n) * 2 powi ex"
      by (rule mult_right_mono) simp
    then have 1: "rnd x \<le> 2 powi Ey" using B by (simp add: rnd_def ex_def)
    have B2: "(2::real) powi Ey = of_int (2 ^ 23) * 2 powi ey"
    proof -
      have "(2::real) powi Ey = 2 powi (23 + ey)" using ey by simp
      also have "\<dots> = 2 powi 23 * 2 powi ey" by (simp add: power_int_add)
      finally show ?thesis by simp
    qed
    have "of_int (2 ^ 23) \<le> y / 2 powi ey"
      using yb B2 by (simp add: field_simps)
    then have "2 ^ 23 \<le> rne (y / 2 powi ey)" by (rule rne_ge_int)
    then have "real_of_int (2 ^ 23) \<le> real_of_int (rne (y / 2 powi ey))" by linarith
    then have "real_of_int (2 ^ 23) * 2 powi ey \<le> real_of_int (rne (y / 2 powi ey)) * 2 powi ey"
      by (rule mult_right_mono) simp
    then have 2: "2 powi Ey \<le> rnd y" using B2 by (simp add: rnd_def ey_def)
    from 1 2 show ?thesis by linarith
  qed
qed

lemma rne_minus: "rne (- q) = - rne q"
proof (cases "q = of_int \<lfloor>q\<rfloor>")
  case True
  then obtain z where "q = of_int z" ..
  then have "rne q = z" "rne (- q) = - z"
    using rne_of_int[of z] rne_of_int[of "- z"] by simp_all
  then show ?thesis by simp
next
  case False
  then have c: "\<lceil>q\<rceil> = \<lfloor>q\<rfloor> + 1" by (simp add: ceiling_altdef)
  have f: "\<lfloor>- q\<rfloor> = - \<lfloor>q\<rfloor> - 1" using c by (simp add: ceiling_def)
  show ?thesis
    unfolding rne_def Let_def f by (auto simp: algebra_simps)
qed

lemma ulp_exp_minus: "ulp_exp (- x) = ulp_exp x"
  by (simp add: ulp_exp_def)

lemma rnd_minus: "rnd (- x) = - rnd x"
  by (simp add: rnd_def ulp_exp_minus rne_minus)

lemma rnd_0: "rnd 0 = 0"
  using rne_of_int[of 0] by (simp add: rnd_def)

lemma rnd_nonneg: "0 \<le> x \<Longrightarrow> 0 \<le> rnd x"
proof -
  assume "0 \<le> x"
  then have "of_int 0 \<le> x / 2 powi ulp_exp x" by simp
  then have "0 \<le> rne (x / 2 powi ulp_exp x)" by (rule rne_ge_int)
  then show ?thesis by (simp add: rnd_def)
qed

lemma rnd_nonpos: "x \<le> 0 \<Longrightarrow> rnd x \<le> 0"
  using rnd_nonneg[of "- x"] by (simp add: rnd_minus)

lemma rnd_mono: "x \<le> y \<Longrightarrow> rnd x \<le> rnd y"
proof -
  assume a: "x \<le> y"
  consider "0 < x" | "y < 0" | "x \<le> 0" "0 \<le> y" by linarith
  then show ?thesis
  proof cases
    case 1
    then show ?thesis using a by (rule rnd_mono_pos)
  next
    case 2
    then have "0 < - y" "- y \<le> - x" using a by simp_all
    then have "rnd (- y) \<le> rnd (- x)" by (rule rnd_mono_pos)
    then show ?thesis by (simp add: rnd_minus)
  next
    case 3
    then show ?thesis using rnd_nonneg[of y] rnd_nonpos[of x] by linarith
  qed
qed

lemma round32_mono: "x \<le> y \<Longrightarrow> fle (round32 x) (round32 y)"
proof -
  assume a: "x \<le> y"
  have m: "rnd x \<le> rnd y" using a by (rule rnd_mono)
  have px: "0 < x \<Longrightarrow> 0 \<le> rnd x" by (rule rnd_nonneg) simp
  have py: "0 < y \<Longrightarrow> 0 \<le> rnd y" by (rule rnd_nonneg) simp
  have nx: "\<not> 0 < x \<Longrightarrow> rnd x \<le> 0" by (rule rnd_nonpos) simp
  have ny: "\<not> 0 < y \<Longrightarrow> rnd y \<le> 0" by (rule rnd_nonpos) simp
  show ?thesis
    unfolding round32_cases using a m px py nx ny
    by (auto simp: abs_if split: if_splits)
qed

section \<open>Properties of the cache sanitizer\<close>

lemma skeleton_repackage: "skeleton_of (repackage_hidden h) = skeleton_of h"
  by (induction h) (simp_all add: detach_def)

lemma tensors_repackage: "tensors (repackage_hidden h) = map detach (tensors h)"
  by (induction h) (simp_all add: map_concat comp_def cong: map_cong)

lemma detach_frame: "shape (detach t) = shape t \<and> data (detach t) = data t \<and> \<not> requires_grad (detach t)"
  by (simp add: detach_def)

text \<open>
  Claim C5. The cache detachment \<open>repackage_hidden\<close> reaches every tensor of the
  cache at any nesting depth and changes neither shape, length nor values: the result
  has the same nesting, the same number of entries at every level and the same tensor
  shapes and contents (\<open>skeleton_of\<close>), its tensors are, in order, the detached
  tensors of the input, and none of them tracks gradients any more.
\<close>

theorem repackage_hidden_frame:
  "skeleton_of (repackage_hidden h) = skeleton_of h
   \<and> tensors (repackage_hidden h) = map detach (tensors h)
   \<and> map shape (tensors (repackage_hidden h)) = map shape (tensors h)
   \<and> map data (tensors (repackage_hidden h)) = map data (tensors h)
   \<and> list_all (\<lambda>t. \<not> requires_grad t) (tensors (repackage_hidden h))"
proof -
  have "map shape (map detach (tensors h)) = map shape (tensors h)"
    by (simp add: detach_frame)
  moreover have "map data (map detach (tensors h)) = map data (tensors h)"
    by (simp add: detach_frame)
  moreover have "list_all (\<lambda>t. \<not> requires_grad t) (map detach (tensors h))"
    by (simp add: list_all_iff detach_frame)
  ultimately show ?thesis
    by (simp only: skeleton_repackage tensors_repackage)
qed

section \<open>Rows, maxima and softmax\<close>

lemma length_softmax_row: "length (softmax_row r) = length r"
  by (cases r) (simp_all add: softmax_row_def Let_def)

lemma length_row: "length xs = n * v \<Longrightarrow> i < n \<Longrightarrow> length (row v xs i) = v"
proof -
  assume a: "length xs = n * v" "i < n"
  then have "Suc i \<le> n" by simp
  then have "Suc i * v \<le> n * v" by (rule mult_le_mono1)
  then show ?thesis using a by (simp add: row_def)
qed

lemma nth_row: "length xs = n * v \<Longrightarrow> i < n \<Longrightarrow> j < v \<Longrightarrow> row v xs i ! j = xs ! (i * v + j)"
proof -
  assume a: "length xs = n * v" "i < n" "j < v"
  then have "Suc i \<le> n" by simp
  then have "Suc i * v \<le> n * v" by (rule mult_le_mono1)
  then show ?thesis using a by (simp add: row_def)
qed

lemma concat_uniform_take_drop:
  "\<forall>r\<in>set rs. length r = v \<Longrightarrow> i < length rs \<Longrightarrow> take v (drop (i * v) (concat rs)) = rs ! i"
proof (induction rs arbitrary: i)
  case Nil
  then show ?case by simp
next
  case (Cons r rs)
  show ?case
  proof (cases i)
    case 0
    then show ?thesis using Cons.prems by simp
  next
    case (Suc k)
    then show ?thesis using Cons by simp
  qed
qed

lemma row_concat_map:
  assumes "length xs = n * v" "i < n" "\<And>r. length (f r) = length r"
  shows "row v (concat (map f (rows n v xs))) i = f (row v xs i)"
proof -
  have "\<forall>r\<in>set (map f (rows n v xs)). length r = v"
    using assms(3) length_row[OF assms(1)] by (auto simp: rows_def)
  moreover have "i < length (map f (rows n v xs))" using assms(2) by (simp add: rows_def)
  ultimately have "take v (drop (i * v) (concat (map f (rows n v xs)))) = map f (rows n v xs) ! i"
    by (rule concat_uniform_take_drop)
  then show ?thesis using assms(2) by (simp add: row_def rows_def)
qed

lemma length_concat_rows:
  assumes "length xs = n * v" "\<And>r. length (f r) = length r"
  shows "length (concat (map f (rows n v xs))) = n * v"
proof -
  have "map (length \<circ> f) (rows n v xs) = replicate n v"
    using assms(2) length_row[OF assms(1)] by (auto simp: rows_def intro!: nth_equalityI)
  then show ?thesis by (simp add: length_concat sum_list_replicate)
qed

lemma argmax_from_spec:
  assumes "length pre = i" "bi < i" "pre ! bi = best" "best \<noteq> NaN"
    "\<forall>j<i. fle (pre ! j) best" "\<forall>j<bi. flt (pre ! j) best"
    "NaN \<notin> set vs"
  shows "argmax_from vs i best bi < length (pre @ vs)
    \<and> (\<forall>j<length (pre @ vs). fle ((pre @ vs) ! j) ((pre @ vs) ! argmax_from vs i best bi))
    \<and> (\<forall>j<argmax_from vs i best bi. flt ((pre @ vs) ! j) ((pre @ vs) ! argmax_from vs i best bi))"
  using assms
proof (induction vs arbitrary: pre i best bi)
  case Nil
  then show ?case by simp
next
  case (Cons v vs)
  from Cons.prems(7) have vn: "v \<noteq> NaN" and vsn: "NaN \<notin> set vs" by auto
  show ?case
  proof (cases "fle v best")
    case False
    then have lt: "flt best v" using vn Cons.prems(4) by (simp add: not_fle_flt)
    then have le: "fle best v" by (simp add: flt_def)
    have "argmax_from vs (Suc i) v i < length ((pre @ [v]) @ vs)
      \<and> (\<forall>j<length ((pre @ [v]) @ vs). fle (((pre @ [v]) @ vs) ! j) (((pre @ [v]) @ vs) ! argmax_from vs (Suc i) v i))
      \<and> (\<forall>j<argmax_from vs (Suc i) v i. flt (((pre @ [v]) @ vs) ! j) (((pre @ [v]) @ vs) ! argmax_from vs (Suc i) v i))"
    proof (rule Cons.IH)
      show "length (pre @ [v]) = Suc i" using Cons.prems(1) by simp
      show "i < Suc i" by simp
      show "(pre @ [v]) ! i = v" using Cons.prems(1) by (auto simp: nth_append)
      show "v \<noteq> NaN" by (rule vn)
      show "\<forall>j<Suc i. fle ((pre @ [v]) ! j) v"
      proof (intro allI impI)
        fix j assume "j < Suc i"
        then consider "j < i" | "j = i" by linarith
        then show "fle ((pre @ [v]) ! j) v"
        proof cases
          case 1
          then have "fle (pre ! j) best" using Cons.prems(5) by simp
          then have "fle (pre ! j) v" using le by (rule fle_trans)
          then show ?thesis using 1 Cons.prems(1) by (simp add: nth_append)
        next
          case 2
          then show ?thesis using Cons.prems(1) vn by (auto simp: nth_append fle_refl)
        qed
      qed
      show "\<forall>j<i. flt ((pre @ [v]) ! j) v"
      proof (intro allI impI)
        fix j assume j: "j < i"
        then have a: "fle (pre ! j) best" using Cons.prems(5) by simp
        then have b: "fle (pre ! j) v" using le by (rule fle_trans)
        have "pre ! j \<noteq> v" using a False by auto
        then show "flt ((pre @ [v]) ! j) v" using b j Cons.prems(1) by (simp add: nth_append flt_def)
      qed
      show "NaN \<notin> set vs" by (rule vsn)
    qed
    then show ?thesis using False vn by simp
  next
    case True
    have "argmax_from vs (Suc i) best bi < length ((pre @ [v]) @ vs)
      \<and> (\<forall>j<length ((pre @ [v]) @ vs). fle (((pre @ [v]) @ vs) ! j) (((pre @ [v]) @ vs) ! argmax_from vs (Suc i) best bi))
      \<and> (\<forall>j<argmax_from vs (Suc i) best bi. flt (((pre @ [v]) @ vs) ! j) (((pre @ [v]) @ vs) ! argmax_from vs (Suc i) best bi))"
    proof (rule Cons.IH)
      show "length (pre @ [v]) = Suc i" using Cons.prems(1) by simp
      show "bi < Suc i" using Cons.prems(2) by simp
      show "(pre @ [v]) ! bi = best" using Cons.prems(1,2,3) by (simp add: nth_append)
      show "best \<noteq> NaN" by (rule Cons.prems(4))
      show "\<forall>j<Suc i. fle ((pre @ [v]) ! j) best"
        using Cons.prems(1,5) True by (auto simp: nth_append less_Suc_eq)
      show "\<forall>j<bi. flt ((pre @ [v]) ! j) best"
        using Cons.prems(1,2,6) by (auto simp: nth_append)
      show "NaN \<notin> set vs" by (rule vsn)
    qed
    then show ?thesis using True by simp
  qed
qed

lemma argmax_spec:
  assumes "r \<noteq> []" "NaN \<notin> set r"
  shows "argmax r < length r \<and> (\<forall>j<length r. fle (r ! j) (r ! argmax r))
    \<and> (\<forall>j<argmax r. flt (r ! j) (r ! argmax r))"
proof -
  from assms obtain v vs where r: "r = v # vs" by (cases r) auto
  with assms(2) have vn: "v \<noteq> NaN" "NaN \<notin> set vs" by auto
  have "argmax_from vs 1 v 0 < length ([v] @ vs)
    \<and> (\<forall>j<length ([v] @ vs). fle (([v] @ vs) ! j) (([v] @ vs) ! argmax_from vs 1 v 0))
    \<and> (\<forall>j<argmax_from vs 1 v 0. flt (([v] @ vs) ! j) (([v] @ vs) ! argmax_from vs 1 v 0))"
    by (rule argmax_from_spec) (use vn in \<open>simp_all add: fle_refl\<close>)
  then show ?thesis using vn by (simp add: r argmax_def)
qed

lemma argmax_from_NaN:
  assumes "NaN \<in> set vs"
  shows "i \<le> argmax_from vs i best bi \<and> argmax_from vs i best bi - i < length vs
    \<and> vs ! (argmax_from vs i best bi - i) = NaN
    \<and> (\<forall>j<argmax_from vs i best bi - i. vs ! j \<noteq> NaN)"
  using assms
proof (induction vs arbitrary: i best bi)
  case Nil
  then show ?case by simp
next
  case (Cons v vs)
  show ?case
  proof (cases "v = NaN")
    case True
    then show ?thesis by simp
  next
    case False
    with Cons.prems have mem: "NaN \<in> set vs" by auto
    have step: "Suc i \<le> argmax_from vs (Suc i) b' bi' \<and> argmax_from vs (Suc i) b' bi' - Suc i < length vs
        \<and> vs ! (argmax_from vs (Suc i) b' bi' - Suc i) = NaN
        \<and> (\<forall>j<argmax_from vs (Suc i) b' bi' - Suc i. vs ! j \<noteq> NaN)" for b' bi'
      using mem by (rule Cons.IH)
    have gen: "i \<le> k \<and> k - i < length (v # vs) \<and> (v # vs) ! (k - i) = NaN
        \<and> (\<forall>j<k - i. (v # vs) ! j \<noteq> NaN)"
      if k: "Suc i \<le> k \<and> k - Suc i < length vs \<and> vs ! (k - Suc i) = NaN
        \<and> (\<forall>j<k - Suc i. vs ! j \<noteq> NaN)" for k
    proof -
      from k have ki: "k - i = Suc (k - Suc i)" by linarith
      have "\<forall>j<k - i. (v # vs) ! j \<noteq> NaN"
      proof (intro allI impI)
        fix j assume "j < k - i"
        then show "(v # vs) ! j \<noteq> NaN"
          using k False ki by (cases j) auto
      qed
      then show ?thesis using k ki by auto
    qed
    show ?thesis
    proof (cases "fle v best")
      case True
      then show ?thesis using gen[OF step[of best bi]] by simp
    next
      case nle: False
      then show ?thesis using gen[OF step[of v i]] False by simp
    qed
  qed
qed

lemma argmax_NaN:
  assumes "NaN \<in> set r"
  shows "argmax r < length r \<and> r ! argmax r = NaN \<and> (\<forall>j<argmax r. r ! j \<noteq> NaN)"
proof -
  from assms obtain v vs where r: "r = v # vs" by (cases r) auto
  show ?thesis
  proof (cases "v = NaN")
    case True
    then show ?thesis by (simp add: r argmax_def)
  next
    case False
    with assms r have mem: "NaN \<in> set vs" by auto
    define k where "k = argmax_from vs 1 v 0"
    from argmax_from_NaN[OF mem, of 1 v 0] have
      k: "1 \<le> k" "k - 1 < length vs" "vs ! (k - 1) = NaN" "\<forall>j<k - 1. vs ! j \<noteq> NaN"
      by (simp_all add: k_def)
    have a: "argmax r = k" using False by (simp add: r argmax_def k_def)
    have "\<forall>j<k. (v # vs) ! j \<noteq> NaN"
    proof (intro allI impI)
      fix j assume "j < k"
      then show "(v # vs) ! j \<noteq> NaN" using k(4) False by (cases j) auto
    qed
    moreover have "(v # vs) ! k = NaN" using k(1,3) by (cases k) auto
    moreover have "k < length (v # vs)" using k(1,2) by auto
    ultimately show ?thesis unfolding a by (simp add: r)
  qed
qed

lemma argmax_less: "r \<noteq> [] \<Longrightarrow> argmax r < length r"
  using argmax_spec[of r] argmax_NaN[of r] by blast

section \<open>The largest probability\<close>

lemma round32_not_NaN: "round32 x \<noteq> NaN"
  by (simp add: round32_cases)

lemma fle_FinE: "fle (Fin a) x \<Longrightarrow> fle x (Fin b) \<Longrightarrow> \<exists>c. x = Fin c \<and> a \<le> c \<and> c \<le> b"
  by (cases x) simp_all

lemma fmax2_fold:
  assumes "\<forall>v\<in>set (x # xs). \<exists>a. v = Fin a"
  shows "foldl fmax2 x xs \<in> set (x # xs) \<and> (\<forall>v\<in>set (x # xs). fle v (foldl fmax2 x xs))"
  using assms
proof (induction xs arbitrary: x)
  case Nil
  then show ?case by auto
next
  case (Cons y ys)
  from Cons.prems obtain a b where x: "x = Fin a" and y: "y = Fin b" by auto
  have f: "fmax2 x y = (if a < b then y else x)" by (auto simp: fmax2_def flt_def x y)
  have "\<forall>v\<in>set (fmax2 x y # ys). \<exists>a. v = Fin a" using Cons.prems f by auto
  from Cons.IH[OF this]
  have m: "foldl fmax2 (fmax2 x y) ys \<in> set (fmax2 x y # ys)"
    and u: "\<forall>v\<in>set (fmax2 x y # ys). fle v (foldl fmax2 (fmax2 x y) ys)" by simp_all
  have 1: "foldl fmax2 x (y # ys) \<in> set (x # y # ys)" using m f by auto
  have t: "fle (fmax2 x y) (foldl fmax2 (fmax2 x y) ys)" using u by simp
  have "fle x (fmax2 x y)" "fle y (fmax2 x y)" unfolding f by (simp_all add: x y)
  then have "fle x (foldl fmax2 (fmax2 x y) ys)" "fle y (foldl fmax2 (fmax2 x y) ys)"
    using t fle_trans by blast+
  with u have 2: "\<forall>v\<in>set (x # y # ys). fle v (foldl fmax2 x (y # ys))" by simp
  from 1 2 show ?case by blast
qed

lemma fexp_fsub_le:
  assumes "a \<le> b"
  shows "\<exists>e. fexp (fsub (Fin a) (Fin b)) = Fin e \<and> 0 \<le> e \<and> e \<le> 1"
proof -
  have "fle (round32 (a - b)) (round32 0)" using assms by (intro round32_mono) simp
  then have t: "fle (round32 (a - b)) (Fin 0)" by simp
  have b: "\<exists>e. round32 (exp t) = Fin e \<and> 0 \<le> e \<and> e \<le> 1" if "t \<le> 0" for t :: real
  proof -
    have "fle (round32 0) (round32 (exp t))" by (intro round32_mono) simp
    moreover have "fle (round32 (exp t)) (round32 1)" using that by (intro round32_mono) simp
    ultimately show ?thesis using fle_FinE[of 0 "round32 (exp t)" 1] by simp
  qed
  show ?thesis
  proof (cases "round32 (a - b)")
    case NaN
    then show ?thesis using round32_not_NaN by blast
  next
    case PInf
    then show ?thesis using t by simp
  next
    case NInf
    then show ?thesis by (simp add: fsub_def)
  next
    case (Fin c)
    then have "c \<le> 0" using t by simp
    from b[OF this] show ?thesis using Fin by (simp add: fsub_def)
  qed
qed

lemma fexp_fsub_same: "fexp (fsub (Fin a) (Fin a)) = Fin 1"
  by (simp add: fsub_def)

lemma fadd_ge:
  assumes "fle (Fin c) x" "fle (Fin 0) y" "c = 0 \<or> c = 1"
  shows "fle (Fin c) (fadd x y)"
proof (cases x)
  case (Fin a)
  show ?thesis
  proof (cases y)
    case (Fin b)
    have "c \<le> a + b" using assms \<open>x = Fin a\<close> Fin by simp
    then have "fle (round32 c) (round32 (a + b))" by (rule round32_mono)
    moreover have "round32 c = Fin c" using assms(3) by auto
    ultimately show ?thesis using \<open>x = Fin a\<close> Fin by simp
  qed (use assms \<open>x = Fin a\<close> in simp_all)
next
  case PInf
  then show ?thesis using assms by (cases y) simp_all
qed (use assms in simp_all)

lemma foldl_fadd_ge:
  assumes "fle (Fin c) acc" "\<forall>e\<in>set es. fle (Fin 0) e" "c = 0 \<or> c = 1"
  shows "fle (Fin c) (foldl fadd acc es)"
  using assms
proof (induction es arbitrary: acc)
  case Nil
  then show ?case by simp
next
  case (Cons e es)
  have "fle (Fin c) (fadd acc e)" using Cons.prems by (intro fadd_ge) simp_all
  then show ?case using Cons by simp
qed

lemma foldl_fadd_ge_one:
  assumes "fle (Fin 0) acc" "\<forall>e\<in>set es. fle (Fin 0) e" "Fin 1 \<in> set es"
  shows "fle (Fin 1) (foldl fadd acc es)"
  using assms
proof (induction es arbitrary: acc)
  case Nil
  then show ?case by simp
next
  case (Cons e es)
  show ?case
  proof (cases "e = Fin 1")
    case True
    have "fle (Fin 1) (fadd e acc)"
      unfolding True using Cons.prems(1) by (intro fadd_ge) simp_all
    moreover have "fadd e acc = fadd acc e" unfolding True by (cases acc) (simp_all add: add.commute)
    ultimately have "fle (Fin 1) (fadd acc e)" by simp
    then have "fle (Fin 1) (foldl fadd (fadd acc e) es)"
      using Cons.prems(2) by (intro foldl_fadd_ge) simp_all
    then show ?thesis by simp
  next
    case False
    have "fle (Fin 0) (fadd acc e)" using Cons.prems by (intro fadd_ge) simp_all
    moreover have "Fin 1 \<in> set es" using Cons.prems(3) False by auto
    ultimately have "fle (Fin 1) (foldl fadd (fadd acc e) es)"
      using Cons.prems(2) by (intro Cons.IH) simp_all
    then show ?thesis by simp
  qed
qed

lemma fdiv_mono:
  assumes "fle (Fin 1) s" "0 \<le> e" "e \<le> 1"
  shows "fle (fdiv (Fin e) s) (fdiv (Fin 1) s)"
proof (cases s)
  case (Fin d)
  then have d: "1 \<le> d" using assms(1) by simp
  then have "e / d \<le> 1 / d" using assms(3) by (simp add: divide_right_mono)
  then have "fle (round32 (e / d)) (round32 (1 / d))" by (rule round32_mono)
  then show ?thesis using Fin d by simp
qed (use assms in simp_all)

lemma softmax_row_max:
  assumes fin: "\<forall>v\<in>set r. \<exists>a. v = Fin a"
    and k: "k < length r"
    and mx: "\<forall>j<length r. fle (r ! j) (r ! k)"
  shows "\<forall>j<length r. fle (softmax_row r ! j) (softmax_row r ! k)"
proof -
  from k obtain x xs where r: "r = x # xs" by (cases r) auto
  define m where "m = foldl fmax2 x xs"
  define es where "es = map (\<lambda>v. fexp (fsub v m)) r"
  define s where "s = foldl fadd (Fin 0) es"
  have sm: "softmax_row r = map (\<lambda>e. fdiv e s) es"
    by (simp add: softmax_row_def r Let_def m_def es_def s_def)
  have "m \<in> set r" and um: "\<forall>v\<in>set r. fle v m"
    using fmax2_fold[of x xs] fin by (simp_all add: m_def r)
  then obtain j0 where "j0 < length r" "m = r ! j0" by (auto simp: in_set_conv_nth)
  then have "fle m (r ! k)" using mx by simp
  moreover have "fle (r ! k) m" using um k by simp
  ultimately have mk: "m = r ! k" by (rule fle_antisym)
  obtain b where b: "m = Fin b" using \<open>m \<in> set r\<close> fin by auto
  have ej: "\<exists>e. es ! j = Fin e \<and> 0 \<le> e \<and> e \<le> 1" if j: "j < length r" for j
  proof -
    from fin j obtain a where a: "r ! j = Fin a" using nth_mem by blast
    have "fle (r ! j) m" using um j by simp
    then have "a \<le> b" by (simp add: a b)
    from fexp_fsub_le[OF this] show ?thesis using j by (simp add: es_def a b)
  qed
  have rk: "r ! k = Fin b" using mk b by simp
  have ek: "es ! k = Fin 1" using k by (simp add: es_def rk b fexp_fsub_same)
  have nonneg: "\<forall>e\<in>set es. fle (Fin 0) e"
  proof
    fix e assume "e \<in> set es"
    then obtain j where "j < length r" "e = es ! j" by (auto simp: in_set_conv_nth es_def)
    with ej[of j] show "fle (Fin 0) e" by auto
  qed
  have "Fin 1 \<in> set es" using ek k by (metis es_def length_map nth_mem)
  then have s1: "fle (Fin 1) s" unfolding s_def using nonneg by (intro foldl_fadd_ge_one) simp_all
  show ?thesis
  proof (intro allI impI)
    fix j assume j: "j < length r"
    from ej[OF j] obtain e where e: "es ! j = Fin e" "0 \<le> e" "e \<le> 1" by blast
    have "fle (fdiv (Fin e) s) (fdiv (Fin 1) s)" using s1 e(2,3) by (rule fdiv_mono)
    moreover have "softmax_row r ! j = fdiv (es ! j) s" using j by (simp add: sm es_def)
    moreover have "softmax_row r ! k = fdiv (es ! k) s" using k by (simp add: sm es_def)
    ultimately show "fle (softmax_row r ! j) (softmax_row r ! k)"
      by (simp add: e(1) ek)
  qed
qed

section \<open>The steps of a forward call\<close>

lemma length_rows: "length (rows n v xs) = n"
  by (simp add: rows_def)

lemma Linear_call_shape:
  assumes "Linear_call st l inp = Inr raw" "shape inp = [n, d]"
  shows "\<exists>w v. cells st (lin_weight l) = Some w \<and> shape w = [v, d] \<and> shape raw = [n, v] \<and> length (data raw) = n * v"
  using assms
  by (auto simp: Linear_call_def F_linear_def Let_def rows_def numel_def length_concat comp_def sum_list_triv
      split: option.splits list.splits if_splits)

lemma forward_InrE:
  assumes "forward self st g x c m k = (Inr ((output, prob, pred), c'), k')"
  obtains e logit ckv b s d raw v where
    "Embedding_call st (word_embedding self) x = Inr e"
    "dec_call (transformer_decoder self) st (training self) g e c m k = (Inr (logit, ckv), k')"
    "c' = repackage_hidden ckv"
    "shape logit = [b, s, d]"
    "Linear_call st (word_decoding self) (logit\<lparr>shape := [b * s, d]\<rparr>) = Inr raw"
    "shape raw = [b * s, v]" "length (data raw) = b * s * v" "0 < v"
    "output = (clamp (- CLAMP_EXP) CLAMP_EXP raw)\<lparr>shape := [b, s, v]\<rparr>"
    "prob = (clamp (- CLAMP_EXP) CLAMP_EXP raw)
              \<lparr>data := concat (map softmax_row (rows (b * s) v (data (clamp (- CLAMP_EXP) CLAMP_EXP raw)))),
               shape := [b, s, v]\<rparr>"
    "pred = \<lparr>shape = [b, s],
             data = map argmax (rows (b * s) v (data (clamp (- CLAMP_EXP) CLAMP_EXP raw))),
             requires_grad = False\<rparr>"
proof -
  from assms obtain e where e: "Embedding_call st (word_embedding self) x = Inr e"
    by (auto simp: forward_def split: sum.splits)
  obtain r k1 where dr: "dec_call (transformer_decoder self) st (training self) g e c m k = (r, k1)"
    by (cases "dec_call (transformer_decoder self) st (training self) g e c m k") auto
  from assms e dr obtain logit ckv where r: "r = Inr (logit, ckv)" and k1: "k1 = k'"
    by (cases r) (auto simp: forward_def Let_def split: prod.splits)
  have dc: "dec_call (transformer_decoder self) st (training self) g e c m k = (Inr (logit, ckv), k')"
    using dr r k1 by simp
  from assms e dc obtain b s d where sh: "shape logit = [b, s, d]"
    by (auto simp: forward_def Let_def split: sum.splits list.splits)
  from assms e dc sh obtain raw where
    raw: "Linear_call st (word_decoding self) (logit\<lparr>shape := [b * s, d]\<rparr>) = Inr raw"
    by (auto simp: forward_def Let_def view_def split: sum.splits if_splits)
  from Linear_call_shape[OF raw] obtain v where
    v: "shape raw = [b * s, v]" "length (data raw) = b * s * v" by auto
  have vl: "view logit [b * s, d] = Inr (logit\<lparr>shape := [b * s, d]\<rparr>)"
    using assms e dc sh by (auto simp: forward_def Let_def view_def split: sum.splits if_splits)
  have shc: "shape (clamp (- CLAMP_EXP) CLAMP_EXP raw) = [b * s, v]"
    using v by (simp add: clamp_def)
  from assms e dc sh raw vl shc have rest:
    "0 < v \<and> c' = repackage_hidden ckv \<and> output = (clamp (- CLAMP_EXP) CLAMP_EXP raw)\<lparr>shape := [b, s, v]\<rparr> \<and>
     prob = (clamp (- CLAMP_EXP) CLAMP_EXP raw)
              \<lparr>data := concat (map softmax_row (rows (b * s) v (data (clamp (- CLAMP_EXP) CLAMP_EXP raw)))),
               shape := [b, s, v]\<rparr> \<and>
     pred = \<lparr>shape = [b, s],
             data = map argmax (rows (b * s) v (data (clamp (- CLAMP_EXP) CLAMP_EXP raw))),
             requires_grad = False\<rparr>"
    by (auto simp: forward_def Let_def view_def max_dim1_def softmax_dim1_def
        split: sum.splits if_splits)
  show ?thesis using that[OF e dc _ sh raw v] rest by blast
qed

lemma forward_total:
  assumes e: "Embedding_call st (word_embedding self) x = Inr e"
    and dc: "dec_call (transformer_decoder self) st (training self) g e c m k = (Inr (logit, ckv), k')"
    and sh: "shape logit = [b, s, d]" and len: "length (data logit) = b * s * d"
    and raw: "Linear_call st (word_decoding self) (logit\<lparr>shape := [b * s, d]\<rparr>) = Inr raw"
    and shr: "shape raw = [b * s, v]" and lr: "length (data raw) = b * s * v" and v: "0 < v"
  shows "forward self st g x c m k =
     (Inr (((clamp (- CLAMP_EXP) CLAMP_EXP raw)\<lparr>shape := [b, s, v]\<rparr>,
           (clamp (- CLAMP_EXP) CLAMP_EXP raw)
              \<lparr>data := concat (map softmax_row (rows (b * s) v (data (clamp (- CLAMP_EXP) CLAMP_EXP raw)))),
               shape := [b, s, v]\<rparr>,
           \<lparr>shape = [b, s],
             data = map argmax (rows (b * s) v (data (clamp (- CLAMP_EXP) CLAMP_EXP raw))),
             requires_grad = False\<rparr>),
          repackage_hidden ckv), k')"
proof -
  define cl where "cl = clamp (- CLAMP_EXP) CLAMP_EXP raw"
  have shc: "shape cl = [b * s, v]" and lc: "length (data cl) = (b * s) * v"
    by (simp_all add: cl_def clamp_def shr lr)
  have lsm: "length (concat (map softmax_row (rows (b * s) v (data cl)))) = (b * s) * v"
    using lc length_softmax_row by (rule length_concat_rows)
  have mx: "max_dim1 cl = Inr (\<lparr>shape = [b * s], data = map (\<lambda>r. r ! argmax r) (rows (b * s) v (data cl)),
                     requires_grad = requires_grad cl\<rparr>,
                    \<lparr>shape = [b * s], data = map argmax (rows (b * s) v (data cl)), requires_grad = False\<rparr>)"
    using v by (simp add: max_dim1_def shc)
  have sm: "softmax_dim1 cl = Inr (cl\<lparr>data := concat (map softmax_row (rows (b * s) v (data cl)))\<rparr>)"
    by (simp add: softmax_dim1_def shc)
  note facts = mx[unfolded cl_def] sm[unfolded cl_def] shc[unfolded cl_def]
    lc[unfolded cl_def] lsm[unfolded cl_def]
  show ?thesis
    unfolding forward_def
    by (simp add: e dc sh len raw facts view_def numel_def Let_def length_rows)
qed

section \<open>The output head\<close>

lemmas eval_defs =
  forward_def Embedding_call_def row_def view_def numel_def Linear_call_def F_linear_def
  rows_def fdot_def clamp_def clamp1_def flt_def CLAMP_EXP_def max_dim1_def softmax_dim1_def
  argmax_def length_softmax_row upt_rec Let_def

lemma demo_forward_returns:
  "\<exists>output prob pred c'.
     forward demo_model demo_store g demo_ids None None k = (Inr ((output, prob, pred), c'), k)"
  by (simp add: eval_defs demo_model_def demo_store_def demo_weight_def demo_ids_def echo_decoder_def)

lemma demo_forward_output:
  "forward demo_model demo_store g demo_ids None None k = (Inr ((output, prob, pred), c'), k')
   \<Longrightarrow> data output = [Fin 15, Fin (- 15), Fin (- 15), Fin 5] \<and> data pred = [0, 1]
       \<and> shape output = [1, 2, 2] \<and> k' = k"
  by (auto simp add: eval_defs demo_model_def demo_store_def demo_weight_def demo_ids_def
      echo_decoder_def split: if_splits)

lemma big_products:
  "round32 (big * big) = PInf" "round32 (- (big * big)) = NInf"
proof -
  have "big * big = 2 ^ 200" by (simp add: big_def flip: power_add)
  then show "round32 (big * big) = PInf" "round32 (- (big * big)) = NInf"
    using round32_overflow_pow[of 200] by simp_all
qed

lemma big_forward:
  "forward demo_model big_store g demo_ids None None k =
     (Inr ((\<lparr>shape = [1, 2, 2], data = [Fin 15, NaN, NaN, Fin 15], requires_grad = True\<rparr>,
            \<lparr>shape = [1, 2, 2], data = [NaN, NaN, NaN, NaN], requires_grad = True\<rparr>,
            \<lparr>shape = [1, 2], data = [1, 0], requires_grad = False\<rparr>),
           Seq PyTuple []), k)"
  by (simp add: eval_defs demo_model_def big_store_def big_weight_def demo_ids_def echo_decoder_def
      big_products softmax_row_def fmax2_def fsub_def)

lemma tie_values:
  "tie_a * tie_a = 1 / 2 ^ 4" "tie_a * tie_b = 1 / 2 ^ 4 + 1 / 2 ^ 27"
  by (simp_all add: tie_a_def tie_b_def field_simps)

lemma tie_rounding:
  "round32 (tie_a * tie_a) = Fin (tie_a * tie_a)"
  "round32 (tie_a * tie_b) = Fin (tie_a * tie_b)"
  "round32 (tie_a * tie_a - tie_a * tie_b) = Fin (- (1 / 2 ^ 27))"
  "round32 (1 / 2) = Fin (1 / 2)"
proof -
  show "round32 (tie_a * tie_a) = Fin (tie_a * tie_a)"
    by (rule round32_dyadic[where m = 1 and k = "- 4"])
       (simp_all add: tie_values power_int_minus inverse_eq_divide)
  show "round32 (tie_a * tie_b) = Fin (tie_a * tie_b)"
    by (rule round32_dyadic[where m = "2 ^ 23 + 1" and k = "- 27"])
       (simp_all add: tie_values power_int_minus field_simps)
  have "tie_a * tie_a - tie_a * tie_b = - (1 / 2 ^ 27)" by (simp add: tie_values)
  moreover have "round32 (- (1 / 2 ^ 27)) = Fin (- (1 / 2 ^ 27))"
    by (rule round32_dyadic[where m = "- 1" and k = "- 27"])
       (simp_all add: power_int_minus inverse_eq_divide)
  ultimately show "round32 (tie_a * tie_a - tie_a * tie_b) = Fin (- (1 / 2 ^ 27))" by simp
  show "round32 (1 / 2) = Fin (1 / 2)"
    by (rule round32_dyadic[where m = 1 and k = "- 1"])
       (simp_all add: power_int_minus inverse_eq_divide)
qed

lemma tie_order:
  "tie_a * tie_a < tie_a * tie_b" "0 < tie_a * tie_a" "tie_a * tie_b < 1"
  by (simp_all add: tie_values field_simps)

lemma tie_forward:
  "forward tie_model tie_store g tie_ids None None k =
     (Inr ((\<lparr>shape = [1, 1, 2], data = [Fin (tie_a * tie_a), Fin (tie_a * tie_b)], requires_grad = True\<rparr>,
            \<lparr>shape = [1, 1, 2], data = [Fin (1 / 2), Fin (1 / 2)], requires_grad = True\<rparr>,
            \<lparr>shape = [1, 1], data = [1], requires_grad = False\<rparr>),
           Seq PyTuple []), k)"
proof -
  define d :: real where "d = 1 / 2 ^ 27"
  define p0 where "p0 = tie_a * tie_a"
  define p1 where "p1 = tie_a * tie_b"
  have r1: "round32 (tie_a * tie_a) = Fin p0" "round32 (tie_a * tie_b) = Fin p1"
    using tie_rounding(1,2) by (simp_all only: p0_def p1_def)
  have r2: "round32 p0 = Fin p0" "round32 p1 = Fin p1"
    using tie_rounding(1,2) by (simp_all only: p0_def p1_def)
  have r3: "round32 (p0 - p1) = Fin (- d)"
    using tie_rounding(3) by (simp only: p0_def p1_def d_def)
  have r4: "round32 (exp (- d)) = Fin 1"
    using fexp_tiny by (simp add: d_def)
  have lt: "p0 < p1" "0 < p0" "p1 < 1"
    using tie_order unfolding p0_def p1_def .
  have o1: "\<not> p1 \<le> p0" "p0 \<le> p1" "p0 \<noteq> p1"
    using lt(1) by simp_all
  have o2: "\<not> p0 \<le> - 15" "\<not> 15 \<le> p0" "\<not> p1 \<le> - 15" "\<not> 15 \<le> p1"
    using lt by simp_all
  show ?thesis
    unfolding p0_def[symmetric] p1_def[symmetric]
    by (simp add: eval_defs tie_model_def tie_store_def tie_weight_def tie_ids_def echo_decoder_def
        softmax_row_def fmax2_def fsub_def tie_rounding(4) r1 r2 r3 r4 o1 o2)
qed

lemma clamp_data_nth:
  "i < length (data raw) \<Longrightarrow>
   data (clamp (- CLAMP_EXP) CLAMP_EXP raw) ! i =
     (if fle (Fin 15) (data raw ! i) then Fin 15
      else if fle (data raw ! i) (Fin (- 15)) then Fin (- 15) else data raw ! i)"
  by (simp add: clamp_def CLAMP_EXP_def clamp1_cases)

text \<open>
  Claim C3. In every forward call that returns, the raw projection scores (the result
  of the output projection on the flattened hidden states) are clamped element by
  element to the range from -15 to 15 before the softmax: a score of at least 15
  becomes exactly 15, a score of at most -15 becomes exactly -15, any other score is
  unchanged; the probabilities are the softmax of these clamped scores.
\<close>

theorem forward_clamps_scores:
  assumes "forward self st g x c m k = (Inr ((output, prob, pred), c'), k')"
  shows "\<exists>e logit ckv raw sm.
      Embedding_call st (word_embedding self) x = Inr e
    \<and> dec_call (transformer_decoder self) st (training self) g e c m k = (Inr (logit, ckv), k')
    \<and> Linear_call st (word_decoding self)
         (logit\<lparr>shape := [shape logit ! 0 * shape logit ! 1, shape logit ! 2]\<rparr>) = Inr raw
    \<and> length (data output) = length (data raw)
    \<and> (\<forall>i<length (data raw). data output ! i =
          (if fle (Fin 15) (data raw ! i) then Fin 15
           else if fle (data raw ! i) (Fin (- 15)) then Fin (- 15) else data raw ! i))
    \<and> softmax_dim1 (output\<lparr>shape := shape raw\<rparr>) = Inr sm
    \<and> data prob = data sm"
proof -
  from assms obtain e logit ckv b s d raw v where
    e: "Embedding_call st (word_embedding self) x = Inr e" and
    dc: "dec_call (transformer_decoder self) st (training self) g e c m k = (Inr (logit, ckv), k')" and
    sh: "shape logit = [b, s, d]" and
    raw: "Linear_call st (word_decoding self) (logit\<lparr>shape := [b * s, d]\<rparr>) = Inr raw" and
    shr: "shape raw = [b * s, v]" and
    out: "output = (clamp (- CLAMP_EXP) CLAMP_EXP raw)\<lparr>shape := [b, s, v]\<rparr>" and
    prob: "prob = (clamp (- CLAMP_EXP) CLAMP_EXP raw)
              \<lparr>data := concat (map softmax_row (rows (b * s) v (data (clamp (- CLAMP_EXP) CLAMP_EXP raw)))),
               shape := [b, s, v]\<rparr>"
    by (rule forward_InrE)
  have raw': "Linear_call st (word_decoding self)
         (logit\<lparr>shape := [shape logit ! 0 * shape logit ! 1, shape logit ! 2]\<rparr>) = Inr raw"
    using raw sh by simp
  have len: "length (data output) = length (data raw)"
    by (simp add: out clamp_def)
  have sat: "\<forall>i<length (data raw). data output ! i =
          (if fle (Fin 15) (data raw ! i) then Fin 15
           else if fle (data raw ! i) (Fin (- 15)) then Fin (- 15) else data raw ! i)"
    using clamp_data_nth by (simp add: out)
  define sm where "sm = (output\<lparr>shape := shape raw\<rparr>)\<lparr>data := concat (map softmax_row (rows (b * s) v (data output)))\<rparr>"
  have sm: "softmax_dim1 (output\<lparr>shape := shape raw\<rparr>) = Inr sm"
    by (simp add: softmax_dim1_def shr sm_def)
  have "data prob = data sm" by (simp add: prob sm_def out)
  with e dc raw' len sat sm show ?thesis by blast
qed

theorem forward_clamps_scores_witness:
  "\<exists>output prob pred c' k' (raw :: f32 tensor).
     forward demo_model demo_store zero_gen demo_ids None None 0 = (Inr ((output, prob, pred), c'), k')
     \<and> data output = [Fin 15, Fin (- 15), Fin (- 15), Fin 5]
     \<and> length (data output) = length (data raw)
     \<and> (\<forall>i<length (data raw). data output ! i =
          (if fle (Fin 15) (data raw ! i) then Fin 15
           else if fle (data raw ! i) (Fin (- 15)) then Fin (- 15) else data raw ! i))"
proof -
  obtain outp prob pred c' where
    h: "forward demo_model demo_store zero_gen demo_ids None None 0 = (Inr ((outp, prob, pred), c'), 0)"
    using demo_forward_returns by blast
  from forward_clamps_scores[OF h] obtain raw :: "f32 tensor" where
    r: "length (data outp) = length (data raw)
        \<and> (\<forall>i<length (data raw). data outp ! i =
             (if fle (Fin 15) (data raw ! i) then Fin 15
              else if fle (data raw ! i) (Fin (- 15)) then Fin (- 15) else data raw ! i))"
    by blast
  have d: "data outp = [Fin 15, Fin (- 15), Fin (- 15), Fin 5]" using demo_forward_output[OF h] by simp
  show ?thesis
    apply (rule exI[of _ outp])
    apply (rule exI[of _ prob])
    apply (rule exI[of _ pred])
    apply (rule exI[of _ c'])
    apply (rule exI[of _ 0])
    apply (rule exI[of _ raw])
    using h d r by simp
qed

text \<open>
  Claim C10, as stated: every element of the first tensor a forward call returns lies
  between -15 and 15. It fails for a NaN score: with the finite embedding rows
  \<open>(2\<^sup>1\<^sup>0\<^sup>0, 2\<^sup>1\<^sup>0\<^sup>0)\<close> and \<open>(2\<^sup>1\<^sup>0\<^sup>0, -2\<^sup>1\<^sup>0\<^sup>0)\<close> the products overflow, the
  projection adds an infinity and its opposite, and the clamp keeps the NaN.
\<close>

theorem forward_output_range_counterexample:
  "map_sum id out_data (fst (forward demo_model big_store zero_gen demo_ids None None 0))
     = Inr [Fin 15, NaN, NaN, Fin 15]
   \<and> \<not> (fle (Fin (- 15)) NaN \<and> fle NaN (Fin 15))"
  by (simp add: big_forward out_data_def)

text \<open>
  Claim C10, amended. The first tensor a forward call returns is the clamped tensor
  itself: its data are those of the clamped projection scores, so the scores before
  the clamp are not returned, and each of its elements is NaN or lies between -15 and
  15; an element is NaN exactly when the projection score is.
\<close>

theorem forward_output_is_clamped:
  assumes "forward self st g x c m k = (Inr ((output, prob, pred), c'), k')"
  shows "(\<forall>v\<in>set (data output). v = NaN \<or> (fle (Fin (- 15)) v \<and> fle v (Fin 15)))
    \<and> (\<exists>e logit ckv raw.
          Embedding_call st (word_embedding self) x = Inr e
        \<and> dec_call (transformer_decoder self) st (training self) g e c m k = (Inr (logit, ckv), k')
        \<and> Linear_call st (word_decoding self)
             (logit\<lparr>shape := [shape logit ! 0 * shape logit ! 1, shape logit ! 2]\<rparr>) = Inr raw
        \<and> data output = data (clamp (- CLAMP_EXP) CLAMP_EXP raw)
        \<and> length (data output) = length (data raw)
        \<and> (\<forall>i<length (data raw). data output ! i = NaN \<longleftrightarrow> data raw ! i = NaN))"
proof -
  from assms obtain e logit ckv b s d raw v where
    e: "Embedding_call st (word_embedding self) x = Inr e" and
    dc: "dec_call (transformer_decoder self) st (training self) g e c m k = (Inr (logit, ckv), k')" and
    sh: "shape logit = [b, s, d]" and
    raw: "Linear_call st (word_decoding self) (logit\<lparr>shape := [b * s, d]\<rparr>) = Inr raw" and
    out: "output = (clamp (- CLAMP_EXP) CLAMP_EXP raw)\<lparr>shape := [b, s, v]\<rparr>"
    by (rule forward_InrE)
  have raw': "Linear_call st (word_decoding self)
         (logit\<lparr>shape := [shape logit ! 0 * shape logit ! 1, shape logit ! 2]\<rparr>) = Inr raw"
    using raw sh by simp
  have d: "data output = data (clamp (- CLAMP_EXP) CLAMP_EXP raw)" by (simp add: out)
  have l: "length (data output) = length (data raw)" by (simp add: d clamp_def)
  have n: "\<forall>i<length (data raw). data output ! i = NaN \<longleftrightarrow> data raw ! i = NaN"
    by (simp add: d clamp_def clamp1_NaN_iff)
  have "\<forall>v\<in>set (data output). v = NaN \<or> (fle (Fin (- 15)) v \<and> fle v (Fin 15))"
    using clamp1_range by (auto simp: d clamp_def CLAMP_EXP_def)
  with e dc raw' d l n show ?thesis by blast
qed

theorem forward_output_is_clamped_witness:
  "\<exists>output prob pred c' k'.
     forward demo_model big_store one_gen demo_ids None None 0 = (Inr ((output, prob, pred), c'), k')
     \<and> data output = [Fin 15, NaN, NaN, Fin 15]
     \<and> (\<forall>v\<in>set (data output). v = NaN \<or> (fle (Fin (- 15)) v \<and> fle v (Fin 15)))"
proof -
  note h = big_forward[of one_gen 0]
  from forward_output_is_clamped[OF h] h show ?thesis by simp
qed

lemma clamped_row_Fin:
  assumes "NaN \<notin> set (row v (data (clamp (- CLAMP_EXP) CLAMP_EXP raw)) i)"
  shows "\<forall>u\<in>set (row v (data (clamp (- CLAMP_EXP) CLAMP_EXP raw)) i). \<exists>a. u = Fin a"
proof
  fix u assume u: "u \<in> set (row v (data (clamp (- CLAMP_EXP) CLAMP_EXP raw)) i)"
  then have n: "u \<noteq> NaN" using assms by auto
  from u have "u \<in> set (data (clamp (- CLAMP_EXP) CLAMP_EXP raw))"
    unfolding row_def by (meson in_set_takeD in_set_dropD)
  then obtain w where "u = clamp1 (- 15) 15 w" by (auto simp: clamp_def CLAMP_EXP_def)
  with clamp1_range[of w] n have "fle (Fin (- 15)) u" "fle u (Fin 15)" by simp_all
  then show "\<exists>a. u = Fin a" using fle_FinE by blast
qed

text \<open>
  Claim C4, as stated, ends: the predictions always agree with the argmax of the
  probabilities. That fails where rounding gives two different scores the same
  probability. The scores \<open>2\<^sup>-\<^sup>4\<close> and \<open>2\<^sup>-\<^sup>4 + 2\<^sup>-\<^sup>2\<^sup>7\<close> differ, so the prediction
  is index 1; the exponential of their difference rounds to 1, both probabilities are
  one half, and the argmax of the probabilities is index 0.
\<close>

theorem pred_not_argmax_prob_counterexample:
  "map_sum id pred_data (fst (forward tie_model tie_store zero_gen tie_ids None None 0)) = Inr [1]
   \<and> map_sum id prob_data (fst (forward tie_model tie_store zero_gen tie_ids None None 0))
       = Inr [Fin (1 / 2), Fin (1 / 2)]
   \<and> argmax [Fin (1 / 2), Fin (1 / 2)] = 0"
  by (simp add: tie_forward pred_data_def prob_data_def argmax_def)

text \<open>
  Claim C4, amended. In every forward call that returns, each row of the probabilities
  along the vocabulary axis is the softmax of the same row of the clamped scores, and
  each prediction is the argmax of that row of the clamped scores: the index of the
  first maximal element, or of the first NaN if the row has one. Both are computed
  from the one clamped tensor; there is no unclamped path. On a row without NaN the
  prediction carries the largest probability of its row, so it agrees with the
  probabilities up to ties among them: it need not be the first index of the largest
  probability.
\<close>

theorem forward_prob_pred_consistent:
  assumes "forward self st g x c m k = (Inr ((output, prob, pred), c'), k')"
  shows "length (data pred) * last (shape output) = length (data output)
    \<and> length (data prob) = length (data output)
    \<and> (\<forall>i<length (data pred).
          row (last (shape output)) (data prob) i = softmax_row (row (last (shape output)) (data output) i)
        \<and> data pred ! i = argmax (row (last (shape output)) (data output) i)
        \<and> data pred ! i < last (shape output)
        \<and> (NaN \<notin> set (row (last (shape output)) (data output) i) \<longrightarrow>
             (\<forall>j<last (shape output).
                fle (row (last (shape output)) (data output) i ! j)
                    (row (last (shape output)) (data output) i ! (data pred ! i)))
           \<and> (\<forall>j<data pred ! i.
                flt (row (last (shape output)) (data output) i ! j)
                    (row (last (shape output)) (data output) i ! (data pred ! i)))
           \<and> (\<forall>j<last (shape output).
                fle (row (last (shape output)) (data prob) i ! j)
                    (row (last (shape output)) (data prob) i ! (data pred ! i))))
        \<and> (NaN \<in> set (row (last (shape output)) (data output) i) \<longrightarrow>
             row (last (shape output)) (data output) i ! (data pred ! i) = NaN
           \<and> (\<forall>j<data pred ! i. row (last (shape output)) (data output) i ! j \<noteq> NaN)))"
proof -
  from assms obtain b s raw v where
    lr: "length (data raw) = b * s * v" and vpos: "0 < v" and
    out: "output = (clamp (- CLAMP_EXP) CLAMP_EXP raw)\<lparr>shape := [b, s, v]\<rparr>" and
    prob: "prob = (clamp (- CLAMP_EXP) CLAMP_EXP raw)
              \<lparr>data := concat (map softmax_row (rows (b * s) v (data (clamp (- CLAMP_EXP) CLAMP_EXP raw)))),
               shape := [b, s, v]\<rparr>" and
    pred: "pred = \<lparr>shape = [b, s],
             data = map argmax (rows (b * s) v (data (clamp (- CLAMP_EXP) CLAMP_EXP raw))),
             requires_grad = False\<rparr>"
    by (rule forward_InrE)
  define xs where "xs = data (clamp (- CLAMP_EXP) CLAMP_EXP raw)"
  have lx: "length xs = (b * s) * v" by (simp add: xs_def clamp_def lr)
  have dout: "data output = xs" by (simp add: out xs_def)
  have dprob: "data prob = concat (map softmax_row (rows (b * s) v xs))" by (simp add: prob xs_def)
  have dpred: "data pred = map argmax (rows (b * s) v xs)" by (simp add: pred xs_def)
  have lastv: "last (shape output) = v" by (simp add: out)
  have lp: "length (data pred) = b * s" by (simp add: dpred rows_def)
  have lprob: "length (data prob) = (b * s) * v"
    unfolding dprob using lx length_softmax_row by (rule length_concat_rows)
  have main: "row v (data prob) i = softmax_row (row v xs i)
        \<and> data pred ! i = argmax (row v xs i)
        \<and> data pred ! i < v
        \<and> (NaN \<notin> set (row v xs i) \<longrightarrow>
             (\<forall>j<v. fle (row v xs i ! j) (row v xs i ! (data pred ! i)))
           \<and> (\<forall>j<data pred ! i. flt (row v xs i ! j) (row v xs i ! (data pred ! i)))
           \<and> (\<forall>j<v. fle (row v (data prob) i ! j) (row v (data prob) i ! (data pred ! i))))
        \<and> (NaN \<in> set (row v xs i) \<longrightarrow>
             row v xs i ! (data pred ! i) = NaN
           \<and> (\<forall>j<data pred ! i. row v xs i ! j \<noteq> NaN))"
    if i: "i < b * s" for i
  proof -
    have rp: "row v (data prob) i = softmax_row (row v xs i)"
      unfolding dprob using lx i length_softmax_row by (rule row_concat_map)
    have pi: "data pred ! i = argmax (row v xs i)"
      using i by (simp add: dpred rows_def)
    have lrow: "length (row v xs i) = v" using lx i by (rule length_row)
    then have ne: "row v xs i \<noteq> []" using vpos by auto
    have a: "argmax (row v xs i) < v" using argmax_less[OF ne] lrow by simp
    have b: "NaN \<notin> set (row v xs i) \<longrightarrow>
             (\<forall>j<v. fle (row v xs i ! j) (row v xs i ! argmax (row v xs i)))
           \<and> (\<forall>j<argmax (row v xs i). flt (row v xs i ! j) (row v xs i ! argmax (row v xs i)))
           \<and> (\<forall>j<v. fle (row v (data prob) i ! j) (row v (data prob) i ! argmax (row v xs i)))"
    proof
      assume nn: "NaN \<notin> set (row v xs i)"
      have sp: "(\<forall>j<v. fle (row v xs i ! j) (row v xs i ! argmax (row v xs i)))
           \<and> (\<forall>j<argmax (row v xs i). flt (row v xs i ! j) (row v xs i ! argmax (row v xs i)))"
        using argmax_spec[OF ne] lrow nn by simp
      have fin: "\<forall>u\<in>set (row v xs i). \<exists>a. u = Fin a"
        unfolding xs_def using nn[unfolded xs_def] by (rule clamped_row_Fin)
      have "\<forall>j<length (row v xs i).
              fle (softmax_row (row v xs i) ! j) (softmax_row (row v xs i) ! argmax (row v xs i))"
        using fin a sp by (intro softmax_row_max) (simp_all add: lrow)
      then have "\<forall>j<v. fle (row v (data prob) i ! j) (row v (data prob) i ! argmax (row v xs i))"
        by (simp add: rp lrow)
      with sp show "(\<forall>j<v. fle (row v xs i ! j) (row v xs i ! argmax (row v xs i)))
           \<and> (\<forall>j<argmax (row v xs i). flt (row v xs i ! j) (row v xs i ! argmax (row v xs i)))
           \<and> (\<forall>j<v. fle (row v (data prob) i ! j) (row v (data prob) i ! argmax (row v xs i)))"
        by simp
    qed
    have c: "NaN \<in> set (row v xs i) \<longrightarrow>
             row v xs i ! argmax (row v xs i) = NaN
           \<and> (\<forall>j<argmax (row v xs i). row v xs i ! j \<noteq> NaN)"
      using argmax_NaN[of "row v xs i"] by simp
    show ?thesis unfolding pi using rp a b c by (intro conjI) simp_all
  qed
  have l1: "b * s * v = length xs" using lx by simp
  have l2: "length (data prob) = length xs" using lx lprob by simp
  have rows_ok: "\<forall>i<b * s.
          row v (data prob) i = softmax_row (row v xs i)
        \<and> data pred ! i = argmax (row v xs i)
        \<and> data pred ! i < v
        \<and> (NaN \<notin> set (row v xs i) \<longrightarrow>
             (\<forall>j<v. fle (row v xs i ! j) (row v xs i ! (data pred ! i)))
           \<and> (\<forall>j<data pred ! i. flt (row v xs i ! j) (row v xs i ! (data pred ! i)))
           \<and> (\<forall>j<v. fle (row v (data prob) i ! j) (row v (data prob) i ! (data pred ! i))))
        \<and> (NaN \<in> set (row v xs i) \<longrightarrow>
             row v xs i ! (data pred ! i) = NaN
           \<and> (\<forall>j<data pred ! i. row v xs i ! j \<noteq> NaN))"
    by (intro allI impI) (rule main)
  show ?thesis
    unfolding lastv dout lp by (intro conjI l1 l2 rows_ok)
qed

theorem forward_prob_pred_consistent_witness:
  "\<exists>output prob pred c' k'.
     forward tie_model tie_store one_gen tie_ids None None 0 = (Inr ((output, prob, pred), c'), k')
     \<and> data pred = [1]
     \<and> data prob = [Fin (1 / 2), Fin (1 / 2)]
     \<and> NaN \<notin> set (row (last (shape output)) (data output) 0)
     \<and> row (last (shape output)) (data prob) 0 = softmax_row (row (last (shape output)) (data output) 0)
     \<and> data pred ! 0 = argmax (row (last (shape output)) (data output) 0)
     \<and> (\<forall>j<last (shape output).
           fle (row (last (shape output)) (data prob) 0 ! j)
               (row (last (shape output)) (data prob) 0 ! (data pred ! 0)))"
proof -
  have "\<exists>outp prob pred c'.
      forward tie_model tie_store one_gen tie_ids None None 0 = (Inr ((outp, prob, pred), c'), 0)
      \<and> data pred = [1] \<and> data prob = [Fin (1 / 2), Fin (1 / 2)]
      \<and> NaN \<notin> set (row (last (shape outp)) (data outp) 0)"
    by (simp add: tie_forward row_def)
  then obtain outp prob pred c' where
    h: "forward tie_model tie_store one_gen tie_ids None None 0 = (Inr ((outp, prob, pred), c'), 0)"
    and d: "data pred = [1]"
    and p: "data prob = [Fin (1 / 2), Fin (1 / 2)]"
    and n: "NaN \<notin> set (row (last (shape outp)) (data outp) 0)"
    by blast
  have "0 < length (data pred)" by (simp add: d)
  with forward_prob_pred_consistent[OF h] n have
    r: "row (last (shape outp)) (data prob) 0 = softmax_row (row (last (shape outp)) (data outp) 0)"
      "data pred ! 0 = argmax (row (last (shape outp)) (data outp) 0)"
      "\<forall>j<last (shape outp).
           fle (row (last (shape outp)) (data prob) 0 ! j)
               (row (last (shape outp)) (data prob) 0 ! (data pred ! 0))"
    by blast+
  show ?thesis
    apply (rule exI[of _ outp])
    apply (rule exI[of _ prob])
    apply (rule exI[of _ pred])
    apply (rule exI[of _ c'])
    apply (rule exI[of _ 0])
    by (intro conjI h d p n r)
qed

section \<open>Shapes\<close>

lemma Embedding_call_shape:
  assumes "Embedding_call st em x = Inr e" "cells st (emb_weight em) = Some w" "shape w = [v, d]"
  shows "shape e = shape x @ [d]"
  using assms by (auto simp: Embedding_call_def split: if_splits)

lemma Linear_call_total:
  assumes "cells st (lin_weight l) = Some w" "shape w = [v, d]" "lin_bias l = None"
    "shape inp = [n, d]"
  shows "\<exists>raw. Linear_call st l inp = Inr raw \<and> shape raw = [n, v] \<and> length (data raw) = n * v"
proof -
  from assms obtain raw where raw: "Linear_call st l inp = Inr raw"
    by (auto simp: Linear_call_def F_linear_def Let_def)
  from Linear_call_shape[OF raw assms(4)] assms(1,2) show ?thesis using raw by auto
qed

lemma demo_embedding:
  "Embedding_call demo_store (word_embedding demo_model) demo_ids
     = Inr \<lparr>shape = [1, 2, 2], data = [Fin 8, Fin 0, Fin (- 2), Fin 1], requires_grad = True\<rparr>"
  by (simp add: Embedding_call_def demo_store_def demo_model_def demo_ids_def demo_weight_def row_def)

text \<open>
  Claim C6. A forward call on ids of shape (batch, sequence length) returns raw
  scores and probabilities of shape (batch, sequence length, vocabulary size) and
  predictions of shape (batch, sequence length). The shapes are read off the hidden
  states the decoder stack returns, so the statement is for a decoder stack that
  keeps the shape of its input, as its contract says; the call then does return, and
  the three tensors hold as many elements as their shapes say.
\<close>

theorem forward_shapes:
  assumes "shape x = [b, s]"
    and "Embedding_call st (word_embedding self) x = Inr e"
    and "dec_call (transformer_decoder self) st (training self) g e c m k = (Inr (logit, ckv), k')"
    and "shape logit = shape e" and "wf_tensor logit"
    and "lin_weight (word_decoding self) = emb_weight (word_embedding self)"
    and "lin_bias (word_decoding self) = None"
    and "cells st (emb_weight (word_embedding self)) = Some w"
    and "shape w = [vocab_size, n_embedding]"
    and "0 < vocab_size"
  shows "\<exists>output prob pred.
      forward self st g x c m k = (Inr ((output, prob, pred), repackage_hidden ckv), k')
    \<and> shape output = [b, s, vocab_size] \<and> shape prob = [b, s, vocab_size] \<and> shape pred = [b, s]
    \<and> wf_tensor output \<and> wf_tensor prob \<and> wf_tensor pred"
proof -
  have she: "shape e = [b, s, n_embedding]"
    using Embedding_call_shape[OF assms(2) assms(8) assms(9)] assms(1) by simp
  then have sh: "shape logit = [b, s, n_embedding]" using assms(4) by simp
  have len: "length (data logit) = b * s * n_embedding"
    using assms(5) sh by (simp add: wf_tensor_def numel_def)
  have "cells st (lin_weight (word_decoding self)) = Some w" using assms(6,8) by simp
  from Linear_call_total[OF this assms(9) assms(7), of "logit\<lparr>shape := [b * s, n_embedding]\<rparr>" "b * s"]
  obtain raw where raw: "Linear_call st (word_decoding self) (logit\<lparr>shape := [b * s, n_embedding]\<rparr>) = Inr raw"
    and shr: "shape raw = [b * s, vocab_size]" and lr: "length (data raw) = b * s * vocab_size"
    by auto
  define cl where "cl = clamp (- CLAMP_EXP) CLAMP_EXP raw"
  have lc: "length (data cl) = (b * s) * vocab_size" by (simp add: cl_def clamp_def lr)
  have lsm: "length (concat (map softmax_row (rows (b * s) vocab_size (data cl)))) = (b * s) * vocab_size"
    using lc length_softmax_row by (rule length_concat_rows)
  note fw = forward_total[OF assms(2) assms(3) sh len raw shr lr assms(10), folded cl_def]
  show ?thesis
    unfolding fw using lc lsm by (simp add: wf_tensor_def numel_def length_rows)
qed

theorem forward_shapes_witness:
  "\<exists>output prob pred c' k'.
      forward demo_model demo_store zero_gen demo_ids None None 0 = (Inr ((output, prob, pred), c'), k')
    \<and> shape demo_ids = [1, 2]
    \<and> shape output = [1, 2, 2] \<and> shape prob = [1, 2, 2] \<and> shape pred = [1, 2]"
proof -
  have "\<exists>output prob pred.
      forward demo_model demo_store zero_gen demo_ids None None 0
        = (Inr ((output, prob, pred), repackage_hidden (Seq PyList [])), 0)
    \<and> shape output = [1, 2, 2] \<and> shape prob = [1, 2, 2] \<and> shape pred = [1, 2]
    \<and> wf_tensor output \<and> wf_tensor prob \<and> wf_tensor pred"
  proof (rule forward_shapes[where e = "\<lparr>shape = [1, 2, 2], data = [Fin 8, Fin 0, Fin (- 2), Fin 1], requires_grad = True\<rparr>"
        and w = demo_weight and n_embedding = 2])
    show "shape demo_ids = [1, 2]" by (simp add: demo_ids_def)
    show "Embedding_call demo_store (word_embedding demo_model) demo_ids
       = Inr \<lparr>shape = [1, 2, 2], data = [Fin 8, Fin 0, Fin (- 2), Fin 1], requires_grad = True\<rparr>"
      by (rule demo_embedding)
    show "dec_call (transformer_decoder demo_model) demo_store (training demo_model) zero_gen
        \<lparr>shape = [1, 2, 2], data = [Fin 8, Fin 0, Fin (- 2), Fin 1], requires_grad = True\<rparr> None None 0
        = (Inr (\<lparr>shape = [1, 2, 2], data = [Fin 8, Fin 0, Fin (- 2), Fin 1], requires_grad = True\<rparr>, Seq PyList []), 0)"
      by (simp add: demo_model_def echo_decoder_def)
    show "shape \<lparr>shape = [1, 2, 2], data = [Fin 8, Fin 0, Fin (- 2), Fin 1], requires_grad = True\<rparr>
        = shape \<lparr>shape = [1, 2, 2], data = [Fin 8, Fin 0, Fin (- 2), Fin 1], requires_grad = True\<rparr>" by simp
    show "wf_tensor \<lparr>shape = [1, 2, 2], data = [Fin 8, Fin 0, Fin (- 2), Fin 1], requires_grad = True\<rparr>"
      by (simp add: wf_tensor_def numel_def)
    show "lin_weight (word_decoding demo_model) = emb_weight (word_embedding demo_model)"
      by (simp add: demo_model_def)
    show "lin_bias (word_decoding demo_model) = None" by (simp add: demo_model_def)
    show "cells demo_store (emb_weight (word_embedding demo_model)) = Some demo_weight"
      by (simp add: demo_model_def demo_store_def)
    show "shape demo_weight = [2, 2]" by (simp add: demo_weight_def)
    show "(0::nat) < 2" by simp
  qed
  then show ?thesis by (auto simp: demo_ids_def)
qed

section \<open>Construction: the tied output projection\<close>

lemma init_fields:
  assumes "TransformerXL_init g mk n_layer n_embedding n_state_ffn n_head n_context
       dropout_residual dropout_attention dropout_emb vocab_size n_positional_embedding
       init_range st0 k0 = Inr (self, st, k)"
  shows "lin_weight (word_decoding self) = emb_weight (word_embedding self)"
    and "lin_bias (word_decoding self) = None"
    and "drop_p (dropout_embedding self) = dropout_emb"
    and "training self"
  using assms
  by (auto simp: TransformerXL_init_def nn_Embedding_def nn_Linear_def nn_Dropout_def
      random_tensor_def new_parameter_def Let_def split: sum.splits if_splits prod.splits)

lemma fdot_nth:
  assumes "length xs = d" "length ys = d"
  shows "fdot xs ys = foldl (\<lambda>acc k. fadd acc (fmul (xs ! k) (ys ! k))) (Fin 0) [0..<d]"
proof -
  have "map2 fmul xs ys = map (\<lambda>k. fmul (xs ! k) (ys ! k)) [0..<d]"
    using assms by (intro nth_equalityI) simp_all
  then show ?thesis by (simp add: fdot_def foldl_map)
qed

lemma F_linear_nth:
  assumes w: "shape w = [v, d]" "length (data w) = v * d"
    and inp: "shape inp = [n, d]" "length (data inp) = n * d"
  shows "\<exists>out. F_linear inp w None = Inr out \<and> shape out = [n, v] \<and> length (data out) = n * v
    \<and> (\<forall>i<n. \<forall>j<v. data out ! (i * v + j)
          = foldl (\<lambda>acc k. fadd acc (fmul (data inp ! (i * d + k)) (data w ! (j * d + k))))
              (Fin 0) [0..<d])"
proof -
  define f where "f = (\<lambda>r. map (\<lambda>j. fdot r (row d (data w) j)) [0..<v])"
  define out where "out = \<lparr>shape = [n, v], data = concat (map f (rows n d (data inp))),
      requires_grad = (requires_grad inp \<or> requires_grad w)\<rparr>"
  have fl: "F_linear inp w None = Inr out"
    by (simp add: F_linear_def w inp Let_def numel_def out_def f_def)
  have uni: "\<forall>r\<in>set (map f (rows n d (data inp))). length r = v" by (simp add: f_def)
  have lo: "length (data out) = n * v"
    using uni by (simp add: out_def length_concat length_rows comp_def f_def sum_list_triv)
  have el: "data out ! (i * v + j)
      = foldl (\<lambda>acc k. fadd acc (fmul (data inp ! (i * d + k)) (data w ! (j * d + k)))) (Fin 0) [0..<d]"
    if i: "i < n" and j: "j < v" for i j
  proof -
    have "i < length (map f (rows n d (data inp)))" using i by (simp add: length_rows)
    with uni have "take v (drop (i * v) (concat (map f (rows n d (data inp)))))
        = map f (rows n d (data inp)) ! i"
      by (rule concat_uniform_take_drop)
    then have "row v (data out) i = f (row d (data inp) i)"
      using i by (simp add: row_def out_def rows_def)
    moreover have "row v (data out) i ! j = data out ! (i * v + j)"
      using lo i j by (rule nth_row)
    ultimately have "data out ! (i * v + j) = fdot (row d (data inp) i) (row d (data w) j)"
      using j by (simp add: f_def)
    also have "\<dots> = foldl (\<lambda>acc k. fadd acc (fmul (row d (data inp) i ! k) (row d (data w) j ! k)))
        (Fin 0) [0..<d]"
      using length_row[OF inp(2) i] length_row[OF w(2) j] by (rule fdot_nth)
    also have "\<dots> = foldl (\<lambda>acc k. fadd acc (fmul (data inp ! (i * d + k)) (data w ! (j * d + k))))
        (Fin 0) [0..<d]"
      using nth_row[OF inp(2) i] nth_row[OF w(2) j] by (intro foldl_cong) auto
    finally show ?thesis .
  qed
  show ?thesis using fl lo el by (auto simp: out_def)
qed

text \<open>
  Claim C7. In every constructed model the output projection has no bias, and it is
  the linear map through the transpose of the shared embedding matrix: for an input
  with rows \<open>x\<^sub>i\<close> and the embedding matrix with rows \<open>w\<^sub>j\<close>, entry
  \<open>(i, j)\<close> of the result is the inner product of \<open>x\<^sub>i\<close> and \<open>w\<^sub>j\<close>, the sum of
  the products started from zero, with nothing added.
\<close>

theorem projection_has_no_bias:
  assumes "TransformerXL_init g mk n_layer n_embedding n_state_ffn n_head n_context
       dropout_residual dropout_attention dropout_emb vocab_size n_positional_embedding
       init_range st0 k0 = Inr (self, st1, k1)"
    and "cells st (emb_weight (word_embedding self)) = Some w"
    and "shape w = [v, d]" and "wf_tensor w"
    and "shape inp = [n, d]" and "wf_tensor inp"
  shows "lin_bias (word_decoding self) = None
    \<and> (\<exists>out. Linear_call st (word_decoding self) inp = Inr out
          \<and> shape out = [n, v] \<and> wf_tensor out
          \<and> (\<forall>i<n. \<forall>j<v. data out ! (i * v + j)
                = foldl (\<lambda>acc k. fadd acc (fmul (data inp ! (i * d + k)) (data w ! (j * d + k))))
                    (Fin 0) [0..<d]))"
proof -
  note f = init_fields[OF assms(1)]
  have lw: "length (data w) = v * d" using assms(3,4) by (simp add: wf_tensor_def numel_def)
  have li: "length (data inp) = n * d" using assms(5,6) by (simp add: wf_tensor_def numel_def)
  have lc: "Linear_call st (word_decoding self) inp = F_linear inp w None"
    using f(1,2) assms(2) by (simp add: Linear_call_def)
  from F_linear_nth[OF assms(3) lw assms(5) li] show ?thesis
    using f(2) lc by (auto simp: wf_tensor_def numel_def)
qed

lemma demo_init:
  "\<exists>self st1 k1. TransformerXL_init demo_gen mk_echo 1 2 4 1 2 (1 / 10) (1 / 10) (1 / 2) 2 3 1 empty_store 0
       = Inr (self, st1, k1)
     \<and> emb_weight (word_embedding self) = 0
     \<and> cells st1 0 = Some \<lparr>shape = [2, 2], data = [Fin 12, Fin 13, Fin 14, Fin 15], requires_grad = True\<rparr>"
  by (simp add: TransformerXL_init_def nn_Embedding_def nn_Linear_def nn_Dropout_def mk_echo_def
      random_tensor_def new_parameter_def empty_store_def init_weight_def modules_def echo_decoder_def
      init_weight_module_def normal_inplace_def demo_gen_def numel_def Let_def upt_rec)

theorem projection_has_no_bias_witness:
  "\<exists>self st1 k1 out.
     TransformerXL_init demo_gen mk_echo 1 2 4 1 2 (1 / 10) (1 / 10) (1 / 2) 2 3 1 empty_store 0
       = Inr (self, st1, k1)
     \<and> lin_bias (word_decoding self) = None
     \<and> Linear_call st1 (word_decoding self) \<lparr>shape = [1, 2], data = [Fin 1, Fin 0], requires_grad = False\<rparr>
          = Inr out
     \<and> shape out = [1, 2] \<and> data out ! 0 = Fin 12 \<and> data out ! 1 = Fin 14"
proof -
  define w :: "f32 tensor" where
    "w = \<lparr>shape = [2, 2], data = [Fin 12, Fin 13, Fin 14, Fin 15], requires_grad = True\<rparr>"
  define inp :: "f32 tensor" where
    "inp = \<lparr>shape = [1, 2], data = [Fin 1, Fin 0], requires_grad = False\<rparr>"
  obtain self st1 k1 where
    i: "TransformerXL_init demo_gen mk_echo 1 2 4 1 2 (1 / 10) (1 / 10) (1 / 2) 2 3 1 empty_store 0
       = Inr (self, st1, k1)"
    and a: "emb_weight (word_embedding self) = 0" and c: "cells st1 0 = Some w"
    using demo_init unfolding w_def by blast
  have c': "cells st1 (emb_weight (word_embedding self)) = Some w" using a c by simp
  have "lin_bias (word_decoding self) = None
    \<and> (\<exists>out. Linear_call st1 (word_decoding self) inp = Inr out
          \<and> shape out = [1, 2] \<and> wf_tensor out
          \<and> (\<forall>i<1. \<forall>j<2. data out ! (i * 2 + j)
                = foldl (\<lambda>acc k. fadd acc (fmul (data inp ! (i * 2 + k)) (data w ! (j * 2 + k))))
                    (Fin 0) [0..<2]))"
    by (rule projection_has_no_bias[OF i c'])
       (simp_all add: w_def inp_def wf_tensor_def numel_def)
  then obtain out where nb: "lin_bias (word_decoding self) = None"
    and o: "Linear_call st1 (word_decoding self) inp = Inr out" "shape out = [1, 2]"
    and el: "\<forall>i<1. \<forall>j<2. data out ! (i * 2 + j)
                = foldl (\<lambda>acc k. fadd acc (fmul (data inp ! (i * 2 + k)) (data w ! (j * 2 + k))))
                    (Fin 0) [0..<2]"
    by blast
  from el have "data out ! (0 * 2 + 0)
      = foldl (\<lambda>acc k. fadd acc (fmul (data inp ! (0 * 2 + k)) (data w ! (0 * 2 + k)))) (Fin 0) [0..<2]"
    by simp
  then have e0: "data out ! 0 = Fin 12"
    by (simp add: w_def inp_def upt_rec)
  from el have "data out ! (0 * 2 + 1)
      = foldl (\<lambda>acc k. fadd acc (fmul (data inp ! (0 * 2 + k)) (data w ! (1 * 2 + k)))) (Fin 0) [0..<2]"
    by simp
  then have e1: "data out ! 1 = Fin 14"
    by (simp add: w_def inp_def upt_rec numeral_3_eq_3)
  show ?thesis
    apply (rule exI[of _ self])
    apply (rule exI[of _ st1])
    apply (rule exI[of _ k1])
    apply (rule exI[of _ out])
    using i nb o e0 e1 by (simp add: inp_def)
qed

text \<open>
  Claim C1. Weight tying: in every constructed model the embedding lookup and the
  output projection hold the same parameter address, so they read the same cell of
  every store: a tensor written through either name is the tensor read through the
  other, and the projection multiplies by the very tensor the embedding reads.
\<close>

theorem weight_tying:
  assumes "TransformerXL_init g mk n_layer n_embedding n_state_ffn n_head n_context
       dropout_residual dropout_attention dropout_emb vocab_size n_positional_embedding
       init_range st0 k0 = Inr (self, st1, k1)"
  shows "lin_weight (word_decoding self) = emb_weight (word_embedding self)
    \<and> (\<forall>st. cells st (lin_weight (word_decoding self)) = cells st (emb_weight (word_embedding self)))
    \<and> (\<forall>st t. cells (param_write (emb_weight (word_embedding self)) t st)
                  (lin_weight (word_decoding self)) = Some t)
    \<and> (\<forall>st t. cells (param_write (lin_weight (word_decoding self)) t st)
                  (emb_weight (word_embedding self)) = Some t)
    \<and> (\<forall>st inp. Linear_call st (word_decoding self) inp =
          (case cells st (emb_weight (word_embedding self)) of
             None \<Rightarrow> Inl RuntimeError
           | Some w \<Rightarrow> F_linear inp w None))"
proof -
  note f = init_fields[OF assms]
  show ?thesis
    by (simp add: f(1) f(2) param_write_def Linear_call_def split: option.splits)
qed

theorem weight_tying_witness:
  "\<exists>self st1 k1.
     TransformerXL_init demo_gen mk_echo 1 2 4 1 2 (1 / 10) (1 / 10) (1 / 2) 2 3 1 empty_store 0
       = Inr (self, st1, k1)
     \<and> lin_weight (word_decoding self) = emb_weight (word_embedding self)
     \<and> cells st1 (lin_weight (word_decoding self))
         = Some \<lparr>shape = [2, 2], data = [Fin 12, Fin 13, Fin 14, Fin 15], requires_grad = True\<rparr>
     \<and> cells (param_write (emb_weight (word_embedding self)) demo_weight st1)
              (lin_weight (word_decoding self)) = Some demo_weight"
proof -
  obtain self st1 k1 where
    i: "TransformerXL_init demo_gen mk_echo 1 2 4 1 2 (1 / 10) (1 / 10) (1 / 2) 2 3 1 empty_store 0
       = Inr (self, st1, k1)"
    and a: "emb_weight (word_embedding self) = 0"
    and c: "cells st1 0 = Some \<lparr>shape = [2, 2], data = [Fin 12, Fin 13, Fin 14, Fin 15], requires_grad = True\<rparr>"
    using demo_init by blast
  note t = weight_tying[OF i]
  from t have t1: "lin_weight (word_decoding self) = emb_weight (word_embedding self)" by blast
  from t have t3: "cells (param_write (emb_weight (word_embedding self)) demo_weight st1)
              (lin_weight (word_decoding self)) = Some demo_weight" by blast
  show ?thesis
    apply (rule exI[of _ self])
    apply (rule exI[of _ st1])
    apply (rule exI[of _ k1])
    using i t1 t3 a c by simp
qed

section \<open>Cache growth and truncation along a chain of calls\<close>

lemma entry_shapes_SomeD:
  assumes "entry_shapes e = Some (sk, sv)"
  obtains k key val where "e = Seq k [Tensor key, Tensor val]" "shape key = sk" "shape val = sv"
  using assms by (cases e rule: entry_shapes.cases) auto

lemma collect_map:
  assumes "\<forall>x\<in>set xs. \<exists>y. f x = Inr y \<and> P y"
  shows "\<exists>ys. collect (map f xs) = Inr ys \<and> length ys = length xs \<and> (\<forall>y\<in>set ys. P y)"
  using assms
proof (induction xs)
  case Nil
  then show ?case by simp
next
  case (Cons x xs)
  then obtain y where y: "f x = Inr y" "P y" by auto
  from Cons obtain ys where ys: "collect (map f xs) = Inr ys" "length ys = length xs" "\<forall>y\<in>set ys. P y"
    by auto
  show ?case using y ys by simp
qed

lemma cache_entries_inv:
  assumes "cache_inv n_layer len rest c"
  shows "\<exists>prevs. cache_entries n_layer c = Inr prevs \<and> length prevs = n_layer
    \<and> (\<forall>p\<in>set prevs. (p = None \<and> len = 0)
          \<or> (\<exists>key val. p = Some (key, val) \<and> shape key = len # rest \<and> shape val = len # rest))"
proof (cases c)
  case None
  then show ?thesis using assms by (simp add: cache_entries_def cache_inv_def)
next
  case (Some h)
  show ?thesis
  proof (cases h)
    case (Tensor t)
    then show ?thesis using assms Some by (simp add: cache_inv_def)
  next
    case (Seq k es)
    from assms Some Seq have le: "length es = n_layer"
      and all: "\<forall>e\<in>set es. entry_shapes e = Some (len # rest, len # rest)"
      by (simp_all add: cache_inv_def list_all_iff)
    have "\<forall>e\<in>set es. \<exists>y. cache_entry e = Inr y \<and> (shape (fst y) = len # rest \<and> shape (snd y) = len # rest)"
    proof
      fix e assume "e \<in> set es"
      with all have "entry_shapes e = Some (len # rest, len # rest)" by blast
      then obtain k' key val where "e = Seq k' [Tensor key, Tensor val]"
        "shape key = len # rest" "shape val = len # rest"
        by (rule entry_shapes_SomeD)
      then show "\<exists>y. cache_entry e = Inr y \<and> (shape (fst y) = len # rest \<and> shape (snd y) = len # rest)"
        by simp
    qed
    from collect_map[OF this] obtain kvs where
      kvs: "collect (map cache_entry es) = Inr kvs" "length kvs = length es"
        "\<forall>y\<in>set kvs. shape (fst y) = len # rest \<and> shape (snd y) = len # rest"
      by blast
    have "cache_entries n_layer c = Inr (map Some kvs)"
      using Some Seq le kvs(1) by (simp add: cache_entries_def)
    moreover have "length (map Some kvs) = n_layer" using kvs(2) le by simp
    moreover have "\<forall>p\<in>set (map Some kvs). (p = None \<and> len = 0)
          \<or> (\<exists>key val. p = Some (key, val) \<and> shape key = len # rest \<and> shape val = len # rest)"
      using kvs(3) by auto
    ultimately show ?thesis by blast
  qed
qed

lemma keep_last0_shape: "shape t = n # rest \<Longrightarrow> shape (keep_last0 M t) = min n M # rest"
  by (simp add: keep_last0_def min_def)

lemma cat0_shape:
  "shape a = n # rest \<Longrightarrow> shape b = k # rest \<Longrightarrow>
   \<exists>t. cat0 a b = Inr t \<and> shape t = (n + k) # rest"
  by (simp add: cat0_def)

lemma update_entry_inv:
  assumes "(p = None \<and> len = 0)
          \<or> (\<exists>key val. p = Some (key, val) \<and> shape key = len # rest \<and> shape val = len # rest)"
    and "shape (fst new) = s # rest" "shape (snd new) = s # rest"
  shows "\<exists>y. update_entry M p new = Inr y
    \<and> entry_shapes y = Some (min (len + s) M # rest, min (len + s) M # rest)"
proof (cases p)
  case None
  with assms(1) have "len = 0" by auto
  then show ?thesis
    using None assms(2,3) by (simp add: update_entry_def keep_last0_shape)
next
  case (Some kv)
  with assms(1) obtain key val where kv: "kv = (key, val)"
    "shape key = len # rest" "shape val = len # rest" by auto
  from cat0_shape[OF kv(2) assms(2)] obtain ck where
    ck: "cat0 key (fst new) = Inr ck" "shape ck = (len + s) # rest" by blast
  from cat0_shape[OF kv(3) assms(3)] obtain cv where
    cv: "cat0 val (snd new) = Inr cv" "shape cv = (len + s) # rest" by blast
  show ?thesis
    using Some kv(1) ck cv by (simp add: update_entry_def keep_last0_shape)
qed

lemma spec_decoder_call_inv:
  assumes inv: "cache_inv n_layer len rest c"
    and kv: "\<forall>i<n_layer. shape (fst (segment_kv i st tr g e c k)) = s # rest
                      \<and> shape (snd (segment_kv i st tr g e c k)) = s # rest"
  shows "\<exists>ckv. spec_decoder_call n_layer n_context hidden segment_kv consumed st tr g e c (Some M) k
            = (Inr (hidden st tr g e c k, ckv), k + consumed tr e)
    \<and> cache_inv n_layer (min (len + s) M) rest (Some ckv)"
proof -
  from cache_entries_inv[OF inv] obtain prevs where
    pr: "cache_entries n_layer c = Inr prevs" "length prevs = n_layer"
      "\<forall>p\<in>set prevs. (p = None \<and> len = 0)
          \<or> (\<exists>key val. p = Some (key, val) \<and> shape key = len # rest \<and> shape val = len # rest)"
    by blast
  have "\<forall>i\<in>set [0..<n_layer]. \<exists>y. update_entry M (prevs ! i) (segment_kv i st tr g e c k) = Inr y
      \<and> entry_shapes y = Some (min (len + s) M # rest, min (len + s) M # rest)"
  proof
    fix i assume "i \<in> set [0..<n_layer]"
    then have i: "i < n_layer" by simp
    then have "prevs ! i \<in> set prevs" using pr(2) by simp
    with pr(3) have "(prevs ! i = None \<and> len = 0)
          \<or> (\<exists>key val. prevs ! i = Some (key, val) \<and> shape key = len # rest \<and> shape val = len # rest)"
      by blast
    moreover from kv i have "shape (fst (segment_kv i st tr g e c k)) = s # rest"
      "shape (snd (segment_kv i st tr g e c k)) = s # rest" by simp_all
    ultimately show "\<exists>y. update_entry M (prevs ! i) (segment_kv i st tr g e c k) = Inr y
      \<and> entry_shapes y = Some (min (len + s) M # rest, min (len + s) M # rest)"
      by (rule update_entry_inv)
  qed
  from collect_map[OF this] obtain entries where
    en: "collect (map (\<lambda>i. update_entry M (prevs ! i) (segment_kv i st tr g e c k)) [0..<n_layer]) = Inr entries"
      "length entries = length [0..<n_layer]"
      "\<forall>y\<in>set entries. entry_shapes y = Some (min (len + s) M # rest, min (len + s) M # rest)"
    by blast
  have "spec_decoder_call n_layer n_context hidden segment_kv consumed st tr g e c (Some M) k
            = (Inr (hidden st tr g e c k, Seq PyList entries), k + consumed tr e)"
    using pr(1) en(1) by (simp add: spec_decoder_call_def)
  moreover have "cache_inv n_layer (min (len + s) M) rest (Some (Seq PyList entries))"
    using en(2,3) by (simp add: cache_inv_def list_all_iff)
  ultimately show ?thesis by blast
qed

lemma repackage_entry_shapes:
  "entry_shapes e = Some (sk, sv) \<Longrightarrow> entry_shapes (repackage_hidden e) = Some (sk, sv)"
  by (erule entry_shapes_SomeD) (simp add: detach_def)

lemma cache_inv_repackage:
  assumes "cache_inv n_layer len rest (Some ckv)"
  shows "cache_inv n_layer len rest (Some (repackage_hidden ckv))"
proof (cases ckv)
  case (Tensor t)
  then show ?thesis using assms by (simp add: cache_inv_def)
next
  case (Seq k es)
  then show ?thesis using assms
    by (auto simp: cache_inv_def list_all_iff repackage_entry_shapes)
qed

lemma entry_tensors_dim0:
  "entry_shapes e = Some (len # rest, len # rest) \<Longrightarrow> map dim0 (tensors e) = [len, len]"
  by (erule entry_shapes_SomeD) (simp add: dim0_def)

lemma concat_map_const_pair:
  "\<forall>e\<in>set es. f e = [a, a] \<Longrightarrow> concat (map f es) = replicate (2 * length es) a"
  by (induction es) simp_all

lemma cache_inv_lengths:
  assumes "cache_inv n_layer len rest (Some h)"
  shows "cached_lengths (Some h) = replicate (2 * n_layer) len"
proof (cases h)
  case (Tensor t)
  then show ?thesis using assms by (simp add: cache_inv_def)
next
  case (Seq k es)
  with assms have le: "length es = n_layer"
    and all: "\<forall>e\<in>set es. entry_shapes e = Some (len # rest, len # rest)"
    by (simp_all add: cache_inv_def list_all_iff)
  have "\<forall>e\<in>set es. (map dim0 \<circ> tensors) e = [len, len]"
    using all by (simp add: entry_tensors_dim0)
  then have "concat (map (map dim0 \<circ> tensors) es) = replicate (2 * length es) len"
    by (rule concat_map_const_pair)
  then show ?thesis using Seq le by (simp add: cached_lengths_def map_concat)
qed

lemma Embedding_call_ok:
  assumes w: "cells st (emb_weight em) = Some w" "shape w = [v, d]" "wf_tensor w"
    and x: "wf_tensor x" "\<forall>i\<in>set (data x). 0 \<le> i \<and> i < int v"
  shows "\<exists>e. Embedding_call st em x = Inr e \<and> shape e = shape x @ [d] \<and> wf_tensor e"
proof -
  define e where "e = \<lparr>shape = shape x @ [d],
                         data = concat (map (\<lambda>i. row d (data w) (nat i)) (data x)),
                         requires_grad = requires_grad w\<rparr>"
  have nex: "\<not> list_ex (\<lambda>i. i < 0 \<or> int v \<le> i) (data x)"
    using x(2) by (auto simp: list_ex_iff)
  have ec: "Embedding_call st em x = Inr e"
    using w(1,2) nex by (simp add: Embedding_call_def e_def)
  have lw: "length (data w) = v * d" using w(2,3) by (simp add: wf_tensor_def numel_def)
  have eq: "map (length \<circ> (\<lambda>i. row d (data w) (nat i))) (data x) = map (\<lambda>_. d) (data x)"
  proof (rule map_cong[OF refl])
    fix i assume "i \<in> set (data x)"
    with x(2) have "nat i < v" by auto
    then show "(length \<circ> (\<lambda>i. row d (data w) (nat i))) i = d"
      using length_row[OF lw] by simp
  qed
  have "length (data e) = sum_list (map (length \<circ> (\<lambda>i. row d (data w) (nat i))) (data x))"
    by (simp add: e_def length_concat)
  also have "\<dots> = sum_list (map (\<lambda>_. d) (data x))" by (simp only: eq)
  also have "\<dots> = length (data x) * d" by (simp add: sum_list_triv)
  finally have "wf_tensor e"
    using x(1) by (simp add: wf_tensor_def numel_def e_def)
  with ec show ?thesis by (auto simp: e_def)
qed

lemma forward_returns_cache:
  assumes e: "Embedding_call st (word_embedding self) x = Inr e"
    and dc: "dec_call (transformer_decoder self) st (training self) g e c m k = (Inr (logit, ckv), k')"
    and sh: "shape logit = [b, s, d]" and wf: "wf_tensor logit"
    and lw: "cells st (lin_weight (word_decoding self)) = Some w" "shape w = [v, d]"
      "lin_bias (word_decoding self) = None" "0 < v"
  shows "\<exists>outs. forward self st g x c m k = (Inr (outs, repackage_hidden ckv), k')"
proof -
  have len: "length (data logit) = b * s * d" using wf sh by (simp add: wf_tensor_def numel_def)
  from Linear_call_total[OF lw(1) lw(2) lw(3), of "logit\<lparr>shape := [b * s, d]\<rparr>" "b * s"]
  obtain raw where raw: "Linear_call st (word_decoding self) (logit\<lparr>shape := [b * s, d]\<rparr>) = Inr raw"
    and shr: "shape raw = [b * s, v]" and lr: "length (data raw) = b * s * v"
    by auto
  from forward_total[OF e dc sh len raw shr lr lw(4)] show ?thesis by blast
qed

lemma min_min_add: "min (min a M + k) M = min (a + k) (M::nat)"
  by (simp add: min_def)

lemma chain_Some: "chain self st g m xs (Some c) k = (Inr r, k') \<Longrightarrow> \<exists>c'. r = Some c'"
  by (induction xs arbitrary: c k) (auto split: sum.splits prod.splits)

lemma chain_inv:
  assumes dec: "dec_call (transformer_decoder self)
        = spec_decoder_call n_layer n_context hidden segment_kv consumed"
    and kv: "\<forall>i st' tr g' e c k. shape e = [b, s, d] \<and> wf_tensor e \<longrightarrow>
              shape (fst (segment_kv i st' tr g' e c k)) = s # rest
            \<and> shape (snd (segment_kv i st' tr g' e c k)) = s # rest"
    and hid: "\<forall>st' tr g' e c k. shape e = [b, s, d] \<and> wf_tensor e \<longrightarrow>
              shape (hidden st' tr g' e c k) = [b, s, d] \<and> wf_tensor (hidden st' tr g' e c k)"
    and tie: "lin_weight (word_decoding self) = emb_weight (word_embedding self)"
    and nb: "lin_bias (word_decoding self) = None"
    and w: "cells st (emb_weight (word_embedding self)) = Some w" "shape w = [v, d]" "wf_tensor w" "0 < v"
    and xs: "\<forall>x\<in>set xs. shape x = [b, s] \<and> wf_tensor x \<and> (\<forall>i\<in>set (data x). 0 \<le> i \<and> i < int v)"
    and inv: "cache_inv n_layer len rest c" and le: "len \<le> M"
  shows "\<exists>c' k'. chain self st g (Some M) xs c k = (Inr c', k')
    \<and> cache_inv n_layer (min (len + length xs * s) M) rest c'"
  using xs inv le
proof (induction xs arbitrary: c len k)
  case Nil
  then show ?case by (simp add: min_def)
next
  case (Cons x xs)
  from Cons.prems(1) have x: "shape x = [b, s]" "wf_tensor x" "\<forall>i\<in>set (data x). 0 \<le> i \<and> i < int v"
    by simp_all
  from Embedding_call_ok[OF w(1) w(2) w(3) x(2) x(3)] obtain e where
    e: "Embedding_call st (word_embedding self) x = Inr e" "shape e = [b, s, d]" "wf_tensor e"
    using x(1) by auto
  from kv e(2,3) have kv': "\<forall>i<n_layer. shape (fst (segment_kv i st (training self) g e c k)) = s # rest
                      \<and> shape (snd (segment_kv i st (training self) g e c k)) = s # rest"
    by blast
  from spec_decoder_call_inv[where segment_kv = segment_kv and st = st and tr = "training self"
      and g = g and e = e and c = c and s = s and n_context = n_context and hidden = hidden
      and M = M and k = k and consumed = consumed, OF Cons.prems(2) kv'] obtain ckv where
    ckv: "spec_decoder_call n_layer n_context hidden segment_kv consumed st (training self) g e c (Some M) k
            = (Inr (hidden st (training self) g e c k, ckv), k + consumed (training self) e)"
      "cache_inv n_layer (min (len + s) M) rest (Some ckv)"
    by blast
  have dc: "dec_call (transformer_decoder self) st (training self) g e c (Some M) k
      = (Inr (hidden st (training self) g e c k, ckv), k + consumed (training self) e)"
    using ckv(1) dec by simp
  from hid e(2,3) have h: "shape (hidden st (training self) g e c k) = [b, s, d]"
    "wf_tensor (hidden st (training self) g e c k)" by blast+
  have lw: "cells st (lin_weight (word_decoding self)) = Some w" using tie w(1) by simp
  from forward_returns_cache[OF e(1) dc h(1) h(2) lw w(2) nb w(4)] obtain outs where
    fw: "forward self st g x c (Some M) k
      = (Inr (outs, repackage_hidden ckv), k + consumed (training self) e)" by blast
  have inv': "cache_inv n_layer (min (len + s) M) rest (Some (repackage_hidden ckv))"
    using ckv(2) by (rule cache_inv_repackage)
  have "\<exists>c' k'. chain self st g (Some M) xs (Some (repackage_hidden ckv)) (k + consumed (training self) e)
        = (Inr c', k')
    \<and> cache_inv n_layer (min (min (len + s) M + length xs * s) M) rest c'"
  proof (rule Cons.IH)
    show "\<forall>x\<in>set xs. shape x = [b, s] \<and> wf_tensor x \<and> (\<forall>i\<in>set (data x). 0 \<le> i \<and> i < int v)"
      using Cons.prems(1) by simp
    show "cache_inv n_layer (min (len + s) M) rest (Some (repackage_hidden ckv))" by (rule inv')
    show "min (len + s) M \<le> M" by simp
  qed
  then obtain c' k' where
    c': "chain self st g (Some M) xs (Some (repackage_hidden ckv)) (k + consumed (training self) e)
        = (Inr c', k')"
    "cache_inv n_layer (min (min (len + s) M + length xs * s) M) rest c'" by blast
  have "min (min (len + s) M + length xs * s) M = min (len + length (x # xs) * s) M"
    by (simp add: min_min_add add.assoc add.commute)
  with c' fw show ?case by simp
qed

text \<open>
  Claim C8. With maximum cache length \<open>M\<close> and a chain of forward calls on segments
  of length \<open>s\<close>, the first without a cache and each later one fed the cache the
  previous call returned, the chain returns a cache after call \<open>k\<close> in which the key
  and the value tensor of every one of the \<open>n_layer\<close> layers have cached length
  \<open>min (k * s) M\<close>. The decoder stack follows the cache policy of the specification;
  its hidden states and per-segment keys and values are arbitrary tensors of the right
  shapes.
\<close>

theorem cache_growth:
  assumes "dec_call (transformer_decoder self)
        = spec_decoder_call n_layer n_context hidden segment_kv consumed"
    and "\<forall>i st' tr g' e c k. shape e = [b, s, d] \<and> wf_tensor e \<longrightarrow>
              shape (fst (segment_kv i st' tr g' e c k)) = s # rest
            \<and> shape (snd (segment_kv i st' tr g' e c k)) = s # rest"
    and "\<forall>st' tr g' e c k. shape e = [b, s, d] \<and> wf_tensor e \<longrightarrow>
              shape (hidden st' tr g' e c k) = [b, s, d] \<and> wf_tensor (hidden st' tr g' e c k)"
    and "lin_weight (word_decoding self) = emb_weight (word_embedding self)"
    and "lin_bias (word_decoding self) = None"
    and "cells st (emb_weight (word_embedding self)) = Some w"
    and "shape w = [v, d]" and "wf_tensor w" and "0 < v"
    and "\<forall>x\<in>set xs. shape x = [b, s] \<and> wf_tensor x \<and> (\<forall>i\<in>set (data x). 0 \<le> i \<and> i < int v)"
    and "xs \<noteq> []"
  shows "\<exists>c k'. chain self st g (Some M) xs None k0 = (Inr (Some c), k')
    \<and> cached_lengths (Some c) = replicate (2 * n_layer) (min (length xs * s) M)"
proof -
  have "cache_inv n_layer 0 rest None" by (simp add: cache_inv_def)
  from chain_inv[OF assms(1-10) this, of M g k0] obtain c' k' where
    c': "chain self st g (Some M) xs None k0 = (Inr c', k')"
      "cache_inv n_layer (min (length xs * s) M) rest c'" by auto
  from assms(11) obtain x xs' where xs: "xs = x # xs'" by (cases xs) auto
  from c'(1) obtain c where "c' = Some c"
    unfolding xs by (auto split: sum.splits prod.splits dest: chain_Some)
  with c' cache_inv_lengths[of n_layer "min (length xs * s) M" rest c] show ?thesis by simp
qed

lemma chain_demo_steps:
  "map_sum id cached_lengths (fst (chain demo_xl demo_store zero_gen (Some 3) [demo_ids] None 0))
     = Inr [2, 2, 2, 2]"
  by (simp add: eval_defs demo_xl_def demo_model_def demo_store_def demo_weight_def demo_ids_def
      spec_decoder_call_def cache_entries_def update_entry_def keep_last0_def cat0_def
      demo_hidden_def demo_segment_kv_def cached_lengths_def dim0_def detach_def)

theorem cache_growth_witness:
  "\<exists>c k'. chain demo_xl demo_store zero_gen (Some 3) [demo_ids, demo_ids, demo_ids] None 0
       = (Inr (Some c), k')
     \<and> cached_lengths (Some c) = [3, 3, 3, 3]"
proof -
  have "\<exists>c k'. chain demo_xl demo_store zero_gen (Some 3) [demo_ids, demo_ids, demo_ids] None 0
       = (Inr (Some c), k')
     \<and> cached_lengths (Some c) = replicate (2 * 2) (min (length [demo_ids, demo_ids, demo_ids] * 2) 3)"
  proof (rule cache_growth[where n_layer = 2 and n_context = 3 and hidden = demo_hidden
        and segment_kv = demo_segment_kv and consumed = demo_consumed and b = 1 and s = 2 and d = 2
        and rest = "[1, 1, 1]" and w = demo_weight and v = 2])
    show "dec_call (transformer_decoder demo_xl)
        = spec_decoder_call 2 3 demo_hidden demo_segment_kv demo_consumed"
      by (simp add: demo_xl_def)
    show "\<forall>i st' tr g' e c k. shape e = [1, 2, 2] \<and> wf_tensor e \<longrightarrow>
              shape (fst (demo_segment_kv i st' tr g' e c k)) = [2, 1, 1, 1]
            \<and> shape (snd (demo_segment_kv i st' tr g' e c k)) = [2, 1, 1, 1]"
      by (simp add: demo_segment_kv_def)
    show "\<forall>st' tr g' e c k. shape e = [1, 2, 2] \<and> wf_tensor e \<longrightarrow>
              shape (demo_hidden st' tr g' e c k) = [1, 2, 2] \<and> wf_tensor (demo_hidden st' tr g' e c k)"
      by (simp add: demo_hidden_def)
    show "lin_weight (word_decoding demo_xl) = emb_weight (word_embedding demo_xl)"
      by (simp add: demo_xl_def demo_model_def)
    show "lin_bias (word_decoding demo_xl) = None"
      by (simp add: demo_xl_def demo_model_def)
    show "cells demo_store (emb_weight (word_embedding demo_xl)) = Some demo_weight"
      by (simp add: demo_xl_def demo_model_def demo_store_def)
    show "shape demo_weight = [2, 2]" by (simp add: demo_weight_def)
    show "wf_tensor demo_weight" by (simp add: demo_weight_def wf_tensor_def numel_def)
    show "(0::nat) < 2" by simp
    show "\<forall>x\<in>set [demo_ids, demo_ids, demo_ids].
        shape x = [1, 2] \<and> wf_tensor x \<and> (\<forall>i\<in>set (data x). 0 \<le> i \<and> i < int 2)"
      by (simp add: demo_ids_def wf_tensor_def numel_def)
    show "[demo_ids, demo_ids, demo_ids] \<noteq> []" by simp
  qed
  moreover have "replicate (2 * 2) (min (length [demo_ids, demo_ids, demo_ids] * 2) 3) = [3, 3, 3, 3::nat]"
    by (simp add: numeral_eq_Suc)
  ultimately show ?thesis by simp
qed

section \<open>Randomness: evaluation mode and embedding dropout\<close>

lemma Dropout_call_eval: "Dropout_call dr False g t k = (t, k)"
  by (simp add: Dropout_call_def)



lemma two_calls_fst: "fst (two_calls self st g x c m k) = fst (forward self st g x c m k)"
  by (simp add: two_calls_def split: prod.splits)

lemma two_calls_snd:
  "snd (two_calls self st g x c m k)
     = fst (forward self st g x c m (snd (forward self st g x c m k)))"
  by (simp add: two_calls_def split: prod.splits)


lemmas masked_defs =
  masked_xl_def demo_model_def demo_store_def demo_weight_def demo_ids_def
  spec_dropout_decoder_call_def spec_decoder_call_def spec_draws_def cache_entries_def
  update_entry_def keep_last0_def masked_hidden_def masked_segment_kv_def masked_draws_def



text \<open>
  In training mode the same model is not deterministic: the first of two calls draws
  the four numbers below one half and drops every element, the second the numbers
  above and drops none.
\<close>

lemma masked_forward_training_first:
  "map_sum id out_data (fst (forward masked_xl demo_store step_gen demo_ids None None 0))
     = Inr [Fin 0, Fin 0, Fin 0, Fin 0]
   \<and> snd (forward masked_xl demo_store step_gen demo_ids None None 0) = 4"
  by (simp add: eval_defs masked_defs out_data_def Dropout_call_def step_gen_def)

lemma masked_forward_training_second:
  "map_sum id out_data (fst (forward masked_xl demo_store step_gen demo_ids None None 4))
     = Inr [Fin 15, Fin (- 15), Fin (- 15), Fin 10]"
  by (simp add: eval_defs masked_defs out_data_def Dropout_call_def step_gen_def)

lemma training_mode_two_calls_differ:
  "training masked_xl
   \<and> map_sum id out_data (fst (two_calls masked_xl demo_store step_gen demo_ids None None 0))
       = Inr [Fin 0, Fin 0, Fin 0, Fin 0]
   \<and> map_sum id out_data (snd (two_calls masked_xl demo_store step_gen demo_ids None None 0))
       = Inr [Fin 15, Fin (- 15), Fin (- 15), Fin 10]"
  using masked_forward_training_first masked_forward_training_second
  by (simp add: two_calls_fst two_calls_snd masked_xl_def demo_model_def)


lemma dropout_forward_zero:
  "\<exists>output prob pred c'.
     forward (demo_model\<lparr>transformer_decoder := dropout_decoder\<rparr>) demo_store zero_gen demo_ids None None 0
       = (Inr ((output, prob, pred), c'), 4)
     \<and> data output = [Fin 0, Fin 0, Fin 0, Fin 0]"
  by (simp add: eval_defs demo_model_def demo_store_def demo_weight_def demo_ids_def
      dropout_decoder_def Dropout_call_def zero_gen_def)

lemma dropout_forward_one:
  "\<exists>output prob pred c'.
     forward (demo_model\<lparr>transformer_decoder := dropout_decoder\<rparr>) demo_store one_gen demo_ids None None 0
       = (Inr ((output, prob, pred), c'), 4)
     \<and> data output = [Fin 15, Fin (- 15), Fin (- 15), Fin 10]"
  by (simp add: eval_defs demo_model_def demo_store_def demo_weight_def demo_ids_def
      dropout_decoder_def Dropout_call_def one_gen_def)

text \<open>
  A decoder stack that applies dropout to its input: in training mode the result of a
  forward call depends on the draws, and the call moves the cursor.
\<close>

lemma training_mode_depends_on_draws:
  "fst (forward (demo_model\<lparr>transformer_decoder := dropout_decoder\<rparr>) demo_store zero_gen demo_ids None None 0)
   \<noteq> fst (forward (demo_model\<lparr>transformer_decoder := dropout_decoder\<rparr>) demo_store one_gen demo_ids None None 0)
   \<and> snd (forward (demo_model\<lparr>transformer_decoder := dropout_decoder\<rparr>) demo_store zero_gen demo_ids None None 0) = 4"
  using dropout_forward_zero dropout_forward_one by auto

text \<open>
  Claim C2. Embedding dropout in training mode. The model builds a dropout module with
  probability \<open>dropout_embedding\<close> but its forward call hands the embedding lookup to
  the decoder stack as it is. On the small instance, in training mode with
  probability one half: dropout with all draws below the probability would zero the
  embedded batch and take four draws; the forward call returns the scores of the
  undropped embeddings for every state of the generator and takes no draw, while a
  decoder stack that is given the dropped embeddings yields the scores 0.
\<close>

theorem embedding_dropout_not_applied:
  "training demo_model
   \<and> drop_p (dropout_embedding demo_model) = 1 / 2
   \<and> Embedding_call demo_store (word_embedding demo_model) demo_ids
       = Inr \<lparr>shape = [1, 2, 2], data = [Fin 8, Fin 0, Fin (- 2), Fin 1], requires_grad = True\<rparr>
   \<and> Dropout_call (dropout_embedding demo_model) (training demo_model) zero_gen
         \<lparr>shape = [1, 2, 2], data = [Fin 8, Fin 0, Fin (- 2), Fin 1], requires_grad = True\<rparr> 0
       = (\<lparr>shape = [1, 2, 2], data = [Fin 0, Fin 0, Fin 0, Fin 0], requires_grad = True\<rparr>, 4)
   \<and> (\<forall>g k. \<exists>output prob pred c'.
          forward demo_model demo_store g demo_ids None None k = (Inr ((output, prob, pred), c'), k)
        \<and> data output = [Fin 15, Fin (- 15), Fin (- 15), Fin 5])
   \<and> (\<exists>output prob pred c'.
          forward (demo_model\<lparr>transformer_decoder := dropout_decoder\<rparr>) demo_store zero_gen
            demo_ids None None 0 = (Inr ((output, prob, pred), c'), 4)
        \<and> data output = [Fin 0, Fin 0, Fin 0, Fin 0])"
proof -
  have a: "training demo_model \<and> drop_p (dropout_embedding demo_model) = 1 / 2"
    by (simp add: demo_model_def)
  have b: "Dropout_call (dropout_embedding demo_model) (training demo_model) zero_gen
         \<lparr>shape = [1, 2, 2], data = [Fin 8, Fin 0, Fin (- 2), Fin 1], requires_grad = True\<rparr> 0
       = (\<lparr>shape = [1, 2, 2], data = [Fin 0, Fin 0, Fin 0, Fin 0], requires_grad = True\<rparr>, 4)"
    by (simp add: Dropout_call_def demo_model_def zero_gen_def)
  have c: "\<forall>g k. \<exists>output prob pred c'.
          forward demo_model demo_store g demo_ids None None k = (Inr ((output, prob, pred), c'), k)
        \<and> data output = [Fin 15, Fin (- 15), Fin (- 15), Fin 5]"
    using demo_forward_returns demo_forward_output by blast
  show ?thesis
    by (intro conjI a[THEN conjunct1] a[THEN conjunct2] demo_embedding b c dropout_forward_zero)
qed

end
